theory Spec2Isabelle
  imports Complex_Main
begin

section \<open>The numbers of the language\<close>

text \<open>
  The numbers of JavaScript are IEEE-754 binary64 values. A finite one is a real number
  \<open>n * 2 ^ e\<close> with an integer \<open>n\<close> of at most 53 bits. An arithmetic operation returns
  the exact result rounded to the nearest such number, and of two equally near ones the
  one with the even \<open>n\<close>. Numbers are modelled as reals, and each operation of the source
  as the exact operation followed by this rounding. The model has no bound on the
  exponent \<open>e\<close>: overflow to \<open>Infinity\<close>, the subnormal numbers below \<open>2 ^ -1022\<close>,
  \<open>NaN\<close> and the sign of zero are not represented. A division by a zero-sized rectangle
  yields \<open>Infinity\<close> or \<open>NaN\<close> in the source and \<open>0\<close> here, so the general statements
  about the mapper are made for a geometry whose displayed and natural dimensions are
  positive (predicate \<open>positive_geometry\<close>).
\<close>

text \<open>The nearest integer, and of two equally near ones the even one.\<close>

definition round_half_even :: "real \<Rightarrow> int" where
  "round_half_even x =
     (let n = \<lfloor>x\<rfloor>; r = x - of_int n
      in if r < 1 / 2 then n else if 1 / 2 < r then n + 1 else if even n then n else n + 1)"

text \<open>
  A positive number \<open>m * s\<close> is brought to the form \<open>m' * s'\<close> with
  \<open>2 ^ 52 \<le> m' < 2 ^ 53\<close> by halving or doubling \<open>m\<close>: then \<open>s'\<close> is the weight of the
  last of the 53 bits.
\<close>

function normalise :: "real \<Rightarrow> real \<Rightarrow> real \<times> real" where
  "normalise m s =
     (if m \<le> 0 then (m, s)
      else if 2 ^ 53 \<le> m then normalise (m / 2) (s * 2)
      else if m < 2 ^ 52 then normalise (m * 2) (s / 2)
      else (m, s))"
  by pat_completeness auto
termination
proof (relation "measure (\<lambda>(m, s). nat \<lfloor>m / 2 ^ 53\<rfloor> + nat \<lceil>2 ^ 52 / m\<rceil>)", goal_cases)
  case 1
  then show ?case by simp
next
  case (2 m s)
  then have m: "2 ^ 53 \<le> m" "0 < m" by simp_all
  have a: "\<lfloor>m / 2 / 2 ^ 53\<rfloor> < \<lfloor>m / 2 ^ 53\<rfloor>"
  proof -
    have "1 \<le> m / 2 ^ 53" using m by (simp add: field_simps)
    then have "m / 2 / 2 ^ 53 + 1 / 2 \<le> m / 2 ^ 53" by (simp add: field_simps)
    then have "\<lfloor>m / 2 / 2 ^ 53 + 1 / 2\<rfloor> \<le> \<lfloor>m / 2 ^ 53\<rfloor>" by (rule floor_mono)
    moreover have "1 \<le> \<lfloor>m / 2 ^ 53\<rfloor>" using \<open>1 \<le> m / 2 ^ 53\<close> by simp
    ultimately show ?thesis by linarith
  qed
  have b: "\<lceil>2 ^ 52 / (m / 2)\<rceil> \<le> \<lceil>2 ^ 52 / m\<rceil>"
  proof -
    have "0 < 2 ^ 52 / m" "2 ^ 52 / m \<le> 1 / 2" "2 ^ 52 / (m / 2) \<le> 1" "0 < 2 ^ 52 / (m / 2)"
      using m by (simp_all add: field_simps)
    then have "\<lceil>2 ^ 52 / m\<rceil> = 1" "\<lceil>2 ^ 52 / (m / 2)\<rceil> = 1"
      by (simp_all add: ceiling_eq_iff)
    then show ?thesis by simp
  qed
  have "0 \<le> \<lfloor>m / 2 / 2 ^ 53\<rfloor>" using m by simp
  with a b show ?case using m by simp linarith
next
  case (3 m s)
  then have m: "m < 2 ^ 52" "0 < m" by simp_all
  have a: "\<lfloor>m * 2 / 2 ^ 53\<rfloor> = 0" "\<lfloor>m / 2 ^ 53\<rfloor> = 0"
    using m by (simp_all add: floor_eq_iff field_simps)
  have b: "\<lceil>2 ^ 52 / (m * 2)\<rceil> < \<lceil>2 ^ 52 / m\<rceil>"
  proof -
    define y where "y = 2 ^ 52 / m"
    have y: "1 < y" using m by (simp add: y_def field_simps)
    have "2 ^ 52 / (m * 2) = y / 2" by (simp add: y_def)
    moreover have "\<lceil>y / 2\<rceil> < \<lceil>y\<rceil>"
    proof -
      have c: "2 \<le> \<lceil>y\<rceil>" using y by linarith
      have d: "y \<le> real_of_int \<lceil>y\<rceil>" by (rule le_of_int_ceiling)
      from c have e: "(2::real) \<le> real_of_int \<lceil>y\<rceil>" by linarith
      from d e have "y / 2 \<le> real_of_int \<lceil>y\<rceil> - 1" by linarith
      then have "y / 2 \<le> real_of_int (\<lceil>y\<rceil> - 1)" by simp
      then have "\<lceil>y / 2\<rceil> \<le> \<lceil>y\<rceil> - 1" by (simp only: ceiling_le_iff)
      then show ?thesis by simp
    qed
    ultimately show ?thesis by (simp add: y_def)
  qed
  show ?case using a b m by simp
qed

declare normalise.simps [simp del]

text \<open>The rounding of a real number to the nearest binary64 number.\<close>

definition fl :: "real \<Rightarrow> real" where
  "fl x =
     (if x = 0 then 0
      else let (m, s) = normalise \<bar>x\<bar> 1 in sgn x * of_int (round_half_even m) * s)"

text \<open>The bound on the relative error of one rounding.\<close>

definition unit_roundoff :: real where
  "unit_roundoff = 1 / 2 ^ 53"

text \<open>The operators \<open>-\<close>, \<open>*\<close> and \<open>/\<close> of the language.\<close>

definition js_minus :: "real \<Rightarrow> real \<Rightarrow> real" where
  "js_minus a b = fl (a - b)"

definition js_times :: "real \<Rightarrow> real \<Rightarrow> real" where
  "js_times a b = fl (a * b)"

definition js_divide :: "real \<Rightarrow> real \<Rightarrow> real" where
  "js_divide a b = fl (a / b)"

text \<open>
  \<open>Math.round\<close> is a builtin of the language: the integer closest to its argument, and
  of two equally close integers the one closer to plus infinity. It is exact.
\<close>

definition Math_round :: "real \<Rightarrow> int" where
  "Math_round x = \<lfloor>x + 1 / 2\<rfloor>"

section \<open>The coordinate mapper of \<open>js/imageeditor/shared/types.ts\<close>\<close>

subsection \<open>Data\<close>

text \<open>
  The result of \<open>getBoundingClientRect()\<close>. The field \<open>top\<close> of the source is
  called \<open>top_edge\<close> here, since \<open>top\<close> is a constant of HOL.
\<close>

record DOMRect =
  left :: real
  top_edge :: real
  width :: real
  height :: real

text \<open>
  The part of an \<open>HTMLImageElement\<close> that the mapper reads. The natural dimensions are
  unsigned integers in the DOM, below \<open>2 ^ 32\<close>.
\<close>

record HTMLImageElement =
  naturalWidth :: nat
  naturalHeight :: nat
  getBoundingClientRect :: DOMRect

text \<open>The part of a \<open>MouseEvent\<close> that the mapper reads.\<close>

record MouseEvent =
  clientX :: real
  clientY :: real
  currentTarget :: HTMLImageElement

subsection \<open>The mapper\<close>

text \<open>Lines 29 and 30: the two scale factors.\<close>

definition xScale :: "HTMLImageElement \<Rightarrow> real" where
  "xScale img = js_divide (real (naturalWidth img)) (width (getBoundingClientRect img))"

definition yScale :: "HTMLImageElement \<Rightarrow> real" where
  "yScale img = js_divide (real (naturalHeight img)) (height (getBoundingClientRect img))"

text \<open>Lines 32 and 33: the vertical offset of the image content when \<open>xScale > yScale\<close>.\<close>

definition y_offset :: "HTMLImageElement \<Rightarrow> real" where
  "y_offset img =
     (let imageRect = getBoundingClientRect img;
          displayed_height = js_divide (real (naturalHeight img)) (xScale img)
      in js_divide (js_minus (height imageRect) displayed_height) 2)"

text \<open>Lines 34 and 35: the coordinates computed in the branch \<open>xScale > yScale\<close>.\<close>

definition width_constrained :: "MouseEvent \<Rightarrow> int \<times> int" where
  "width_constrained evt =
     (let img = currentTarget evt;
          imageRect = getBoundingClientRect img;
          x = Math_round (js_times (js_minus (clientX evt) (left imageRect)) (xScale img));
          y = Math_round (js_times
                (js_minus (js_minus (clientY evt) (top_edge imageRect)) (y_offset img))
                (xScale img))
      in (x, y))"

text \<open>Lines 37 and 38: the horizontal offset of the image content in the other branch.\<close>

definition x_offset :: "HTMLImageElement \<Rightarrow> real" where
  "x_offset img =
     (let imageRect = getBoundingClientRect img;
          displayed_width = js_divide (real (naturalWidth img)) (yScale img)
      in js_divide (js_minus (width imageRect) displayed_width) 2)"

text \<open>Lines 39 and 40: the coordinates computed in the other branch.\<close>

definition height_constrained :: "MouseEvent \<Rightarrow> int \<times> int" where
  "height_constrained evt =
     (let img = currentTarget evt;
          imageRect = getBoundingClientRect img;
          x = Math_round (js_times
                (js_minus (js_minus (clientX evt) (left imageRect)) (x_offset img))
                (yScale img));
          y = Math_round (js_times (js_minus (clientY evt) (top_edge imageRect)) (yScale img))
      in (x, y))"

text \<open>Lines 31 to 41: the values of \<open>x\<close> and \<open>y\<close> when the bounds check is reached.\<close>

definition clicked_xy :: "MouseEvent \<Rightarrow> int \<times> int" where
  "clicked_xy evt =
     (if xScale (currentTarget evt) > yScale (currentTarget evt)
      then width_constrained evt
      else height_constrained evt)"

text \<open>
  Lines 23 to 46: the whole function. \<open>None\<close> is the \<open>null\<close> of the source,
  \<open>Some (x, y)\<close> the array \<open>[x, y]\<close>.
\<close>

definition get_coordinates_of_clicked_image :: "MouseEvent \<Rightarrow> (int \<times> int) option" where
  "get_coordinates_of_clicked_image evt =
     (let img = currentTarget evt;
          (x, y) = clicked_xy evt
      in if x < 0 \<or> x \<ge> int (naturalWidth img) \<or> y < 0 \<or> y \<ge> int (naturalHeight img)
         then None
         else Some (x, y))"

text \<open>
  The invariant of an element geometry: natural and displayed dimensions are positive.
\<close>

definition positive_geometry :: "HTMLImageElement \<Rightarrow> bool" where
  "positive_geometry img \<longleftrightarrow>
     0 < naturalWidth img \<and> 0 < naturalHeight img \<and>
     0 < width (getBoundingClientRect img) \<and> 0 < height (getBoundingClientRect img)"

text \<open>
  A geometry of moderate extent: the natural sizes are below \<open>2 ^ 32\<close>, as the unsigned
  integers of the DOM are, and the rectangle measures at most \<open>2 ^ 32\<close> native pixels
  along each axis, at the scale that pads this axis.
\<close>

definition native_extent_bounded :: "HTMLImageElement \<Rightarrow> bool" where
  "native_extent_bounded img \<longleftrightarrow>
     naturalWidth img < 2 ^ 32 \<and> naturalHeight img < 2 ^ 32 \<and>
     height (getBoundingClientRect img) * xScale img \<le> 2 ^ 32 \<and>
     width (getBoundingClientRect img) * yScale img \<le> 2 ^ 32"

text \<open>A click at offset \<open>(dx, dy)\<close> from the origin of the rectangle of \<open>img\<close>.\<close>

definition click_at :: "HTMLImageElement \<Rightarrow> real \<Rightarrow> real \<Rightarrow> MouseEvent" where
  "click_at img dx dy =
     \<lparr>clientX = left (getBoundingClientRect img) + dx,
      clientY = top_edge (getBoundingClientRect img) + dy,
      currentTarget = img\<rparr>"

text \<open>An image of natural size \<open>nw\<close> by \<open>nh\<close> shown in a box \<open>w\<close> by \<open>h\<close> at \<open>(l, t)\<close>.\<close>

definition image_in_box :: "nat \<Rightarrow> nat \<Rightarrow> real \<Rightarrow> real \<Rightarrow> real \<Rightarrow> real \<Rightarrow> HTMLImageElement" where
  "image_in_box nw nh l t w h =
     \<lparr>naturalWidth = nw, naturalHeight = nh,
      getBoundingClientRect = \<lparr>left = l, top_edge = t, width = w, height = h\<rparr>\<rparr>"

section \<open>The outside-click detector of \<open>js/imageeditor/shared/types.ts\<close>\<close>

subsection \<open>The DOM tree\<close>

text \<open>
  A DOM node with its children. The identifier stands for the identity of the node object,
  so that two nodes of the same shape are different values.
\<close>

datatype Node = Node (nodeId: nat) (childNodes: "Node list")

text \<open>
  \<open>Node.contains\<close> is a builtin of the DOM: whether the other node is the node itself
  or one of its descendants.
\<close>

fun contains :: "Node \<Rightarrow> Node \<Rightarrow> bool" where
  "contains (Node i cs) other \<longleftrightarrow> other = Node i cs \<or> (\<exists>c \<in> set cs. contains c other)"

text \<open>
  The part of a click event that the handler reads. A click that a document listener
  observes has a target node.
\<close>

record ClickEvent =
  target :: Node
  defaultPrevented :: bool

subsection \<open>The handler\<close>

text \<open>
  The callback \<open>cb\<close> is opaque: it is known by a name, and a call \<open>cb(event)\<close> is
  recorded as the pair of the callback and its argument.
\<close>

type_synonym callback = nat

type_synonym call = "callback \<times> ClickEvent"

text \<open>
  The function object \<open>handle_click\<close> that one call of \<open>click_outside\<close> creates: its
  identity, and the variables \<open>node\<close> and \<open>cb\<close> that it closes over. \<open>None\<close> is a
  \<open>null\<close> node.
\<close>

record handle_click_closure =
  closure_id :: nat
  node :: "Node option"
  cb :: callback

text \<open>Lines 49 to 57: the calls that the handler makes on one event.\<close>

definition handle_click :: "handle_click_closure \<Rightarrow> ClickEvent \<Rightarrow> call list" where
  "handle_click h event =
     (case node h of
        None \<Rightarrow> []
      | Some n \<Rightarrow>
          if \<not> contains n (target event) \<and> \<not> defaultPrevented event
          then [(cb h, event)]
          else [])"

subsection \<open>The listeners of the document\<close>

record EventListener =
  event_type :: string
  callback :: handle_click_closure
  capture :: bool

text \<open>
  The state of the document: its listeners in the order of their registration, and the
  number of function objects created so far, from which the next one takes its identity.
\<close>

record Document =
  listeners :: "EventListener list"
  allocated :: nat

definition empty_document :: Document where
  "empty_document = \<lparr>listeners = [], allocated = 0\<rparr>"

text \<open>
  The DOM identifies a listener by its type, its callback object and its capture flag.
\<close>

definition same_listener :: "string \<Rightarrow> handle_click_closure \<Rightarrow> bool \<Rightarrow> EventListener \<Rightarrow> bool" where
  "same_listener ty h cap l \<longleftrightarrow>
     event_type l = ty \<and> closure_id (callback l) = closure_id h \<and> capture l = cap"

text \<open>\<open>addEventListener\<close> appends the listener unless the document already has it.\<close>

definition addEventListener :: "string \<Rightarrow> handle_click_closure \<Rightarrow> bool \<Rightarrow> Document \<Rightarrow> Document" where
  "addEventListener ty h cap doc =
     (if \<exists>l \<in> set (listeners doc). same_listener ty h cap l
      then doc
      else doc\<lparr>listeners := listeners doc @ [\<lparr>event_type = ty, callback = h, capture = cap\<rparr>]\<rparr>)"

text \<open>\<open>removeEventListener\<close> removes the listener, and does nothing when it is absent.\<close>

definition removeEventListener :: "string \<Rightarrow> handle_click_closure \<Rightarrow> bool \<Rightarrow> Document \<Rightarrow> Document" where
  "removeEventListener ty h cap doc =
     doc\<lparr>listeners := filter (\<lambda>l. \<not> same_listener ty h cap l) (listeners doc)\<rparr>"

subsection \<open>Registration and teardown\<close>

text \<open>
  Lines 48 to 66. The object that \<open>click_outside\<close> returns has the one method
  \<open>destroy\<close>, which closes over \<open>handle_click\<close>: the handle is modelled as that closure.
\<close>

definition click_outside :: "Node option \<Rightarrow> callback \<Rightarrow> Document \<Rightarrow> handle_click_closure \<times> Document" where
  "click_outside n c doc =
     (let h = \<lparr>closure_id = allocated doc, node = n, cb = c\<rparr>
      in (h, addEventListener ''click'' h True (doc\<lparr>allocated := Suc (allocated doc)\<rparr>)))"

text \<open>Lines 62 to 64.\<close>

definition destroy :: "handle_click_closure \<Rightarrow> Document \<Rightarrow> Document" where
  "destroy h doc = removeEventListener ''click'' h True doc"

subsection \<open>Clicks\<close>

text \<open>
  A click that reaches the document runs each click listener in the order of registration.
  Every call is recorded with the identity of the handler that made it. The callbacks are
  opaque: they are taken to change neither the event nor the listeners of the document.
\<close>

type_synonym invocation = "nat \<times> call"

definition dispatch_click :: "ClickEvent \<Rightarrow> Document \<Rightarrow> invocation list" where
  "dispatch_click event doc =
     concat (map (\<lambda>l. map (Pair (closure_id (callback l))) (handle_click (callback l) event))
       (filter (\<lambda>l. event_type l = ''click'') (listeners doc)))"

text \<open>The calls that the handler \<open>h\<close> made among the recorded ones.\<close>

definition calls_of :: "handle_click_closure \<Rightarrow> invocation list \<Rightarrow> call list" where
  "calls_of h invs = map snd (filter (\<lambda>i. fst i = closure_id h) invs)"

text \<open>
  What the surrounding code can do with the document through this module: register a
  detector, tear one down, and let the user click.
\<close>

datatype action =
  Register "Node option" callback
| Teardown handle_click_closure
| Click ClickEvent

text \<open>The calls recorded while a sequence of actions runs.\<close>

fun run :: "action list \<Rightarrow> Document \<Rightarrow> invocation list" where
  "run [] doc = []"
| "run (Register n c # acts) doc = run acts (snd (click_outside n c doc))"
| "run (Teardown h # acts) doc = run acts (destroy h doc)"
| "run (Click e # acts) doc = dispatch_click e doc @ run acts doc"

text \<open>
  Every function object that is registered has been created: the invariant of the
  document that makes the identity of a new handler fresh.
\<close>

definition well_formed :: "Document \<Rightarrow> bool" where
  "well_formed doc \<longleftrightarrow> (\<forall>l \<in> set (listeners doc). closure_id (callback l) < allocated doc)"

text \<open>
  The registration of \<open>h\<close> is active: \<open>h\<close> has been created, and the one listener of
  the document with its identity is the capturing click listener that \<open>click_outside\<close>
  added.
\<close>

definition active :: "handle_click_closure \<Rightarrow> Document \<Rightarrow> bool" where
  "active h doc \<longleftrightarrow>
     closure_id h < allocated doc \<and>
     filter (\<lambda>l. closure_id (callback l) = closure_id h) (listeners doc)
       = [\<lparr>event_type = ''click'', callback = h, capture = True\<rparr>]"

text \<open>The registration of \<open>h\<close> is over: \<open>h\<close> has been created and is no listener.\<close>

definition torn_down :: "handle_click_closure \<Rightarrow> Document \<Rightarrow> bool" where
  "torn_down h doc \<longleftrightarrow>
     closure_id h < allocated doc \<and>
     (\<forall>l \<in> set (listeners doc). closure_id (callback l) \<noteq> closure_id h)"

section \<open>Properties of the rounding to binary64\<close>

lemma round_half_even_error: "\<bar>of_int (round_half_even x) - x\<bar> \<le> 1 / 2"
  unfolding round_half_even_def Let_def by (auto split: if_splits)

lemma round_half_even_of_int: "round_half_even (of_int n) = n"
  by (simp add: round_half_even_def)

lemma normalise_props:
  assumes "0 < m" and "0 < s" and "normalise m s = (m', s')"
  shows "m' * s' = m * s \<and> 2 ^ 52 \<le> m' \<and> m' < 2 ^ 53 \<and> 0 < s' \<and>
         (\<exists>j::int. s' = s * 2 powr of_int j)"
  using assms
proof (induction m s rule: normalise.induct)
  case (1 m s)
  note pos = \<open>0 < m\<close> \<open>0 < s\<close>
  note res = \<open>normalise m s = (m', s')\<close>
  show ?case
  proof (cases "2 ^ 53 \<le> m")
    case True
    have "normalise m s = normalise (m / 2) (s * 2)"
      using True pos by (simp add: normalise.simps [of m s])
    with res have r: "normalise (m / 2) (s * 2) = (m', s')" by simp
    have "\<not> m \<le> 0" "0 < m / 2" "0 < s * 2" using pos by simp_all
    from "1.IH"(1) [OF this(1) True this(2) this(3) r]
    have ih: "m' * s' = m / 2 * (s * 2)" "2 ^ 52 \<le> m'" "m' < 2 ^ 53" "0 < s'"
      "\<exists>j::int. s' = s * 2 * 2 powr of_int j"
      by blast+
    from ih(5) obtain j :: int where "s' = s * 2 * 2 powr of_int j" ..
    then have "s' = s * 2 powr of_int (j + 1)"
      by (simp add: powr_add)
    then have "\<exists>j::int. s' = s * 2 powr of_int j" ..
    moreover from ih(1) have "m' * s' = m * s" by simp
    ultimately show ?thesis using ih(2-4) by blast
  next
    case False
    show ?thesis
    proof (cases "m < 2 ^ 52")
      case True
      have "normalise m s = normalise (m * 2) (s / 2)"
        using True False pos by (simp add: normalise.simps [of m s])
      with res have r: "normalise (m * 2) (s / 2) = (m', s')" by simp
      have "\<not> m \<le> 0" "0 < m * 2" "0 < s / 2" using pos by simp_all
      from "1.IH"(2) [OF this(1) False True this(2) this(3) r]
      have ih: "m' * s' = m * 2 * (s / 2)" "2 ^ 52 \<le> m'" "m' < 2 ^ 53" "0 < s'"
        "\<exists>j::int. s' = s / 2 * 2 powr of_int j"
        by blast+
      from ih(5) obtain j :: int where "s' = s / 2 * 2 powr of_int j" ..
      then have "s' = s * 2 powr of_int (j - 1)"
        by (simp add: powr_diff)
      then have "\<exists>j::int. s' = s * 2 powr of_int j" ..
      moreover from ih(1) have "m' * s' = m * s" by simp
      ultimately show ?thesis using ih(2-4) by blast
    next
      case F2: False
      have "normalise m s = (m, s)"
        using F2 False pos by (simp add: normalise.simps [of m s])
      with res have "m' = m" "s' = s" by simp_all
      moreover have "s = s * 2 powr of_int 0" by simp
      then have "\<exists>j::int. s = s * 2 powr of_int j" ..
      ultimately show ?thesis using False F2 pos by simp
    qed
  qed
qed

lemma fl_zero: "fl 0 = 0"
  by (simp add: fl_def)

text \<open>The relative error of the rounding is at most \<open>2 ^ -53\<close>.\<close>

lemma fl_error: "\<bar>fl x - x\<bar> \<le> \<bar>x\<bar> / 2 ^ 53"
proof (cases "x = 0")
  case True
  then show ?thesis by (simp add: fl_def)
next
  case False
  obtain m s where n: "normalise \<bar>x\<bar> 1 = (m, s)" by (cases "normalise \<bar>x\<bar> 1")
  from False have "0 < \<bar>x\<bar>" by simp
  from normalise_props [OF this _ n]
  have p: "m * s = \<bar>x\<bar>" "2 ^ 52 \<le> m" "m < 2 ^ 53" "0 < s" by simp_all
  have f: "fl x = sgn x * of_int (round_half_even m) * s"
    using False n by (simp add: fl_def)
  have "x = sgn x * (m * s)" by (simp add: p(1) sgn_mult_abs)
  then have "fl x - x = sgn x * s * (of_int (round_half_even m) - m)"
    by (simp add: f algebra_simps)
  then have "\<bar>fl x - x\<bar> = s * \<bar>of_int (round_half_even m) - m\<bar>"
    using False p(4) by (simp add: abs_mult abs_sgn_eq)
  also have "\<dots> \<le> s * (1 / 2)"
    using p(4) round_half_even_error [of m] by (simp only: mult_left_mono less_imp_le)
  also have "\<dots> \<le> s * (m / 2 ^ 53)"
    using p(2) p(4) by (intro mult_left_mono) (simp_all add: field_simps)
  also have "\<dots> = \<bar>x\<bar> / 2 ^ 53"
    using p(1) by (simp add: mult.commute)
  finally show ?thesis .
qed

lemma fl_pos:
  assumes "0 < x"
  shows "0 < fl x"
proof -
  have "x - fl x \<le> \<bar>x\<bar> / 2 ^ 53"
    using fl_error [of x] by linarith
  moreover have "\<bar>x\<bar> / 2 ^ 53 < x"
    using assms by (simp add: field_simps)
  ultimately show ?thesis by linarith
qed

lemma two_powr_int_gt_one: "1 < (2::real) powr of_int k \<longleftrightarrow> 0 < k"
  using powr_less_cancel_iff [of 2 0 "of_int k"] by simp

lemma two_powr_int_lt_one: "(2::real) powr of_int k < 1 \<longleftrightarrow> k < 0"
  using powr_less_cancel_iff [of 2 "of_int k" 0] by simp

lemma two_powr_pred: "(2::real) powr (of_int k - 1) = 2 powr of_int k / 2"
  by (simp add: powr_diff)

lemma two_powr_succ: "(2::real) powr (of_int k + 1) = 2 powr of_int k * 2"
  by (simp add: powr_add)

text \<open>The normal form of a number is unique.\<close>

lemma normalise_unique:
  assumes "0 < m" and "0 < s" and "2 ^ 52 \<le> M" and "M < 2 ^ 53"
    and "M * S = m * s" and "S = s * 2 powr of_int k"
  shows "normalise m s = (M, S)"
  using assms
proof (induction m s arbitrary: k rule: normalise.induct)
  case (1 m s)
  note pos = \<open>0 < m\<close> \<open>0 < s\<close>
  note M = \<open>2 ^ 52 \<le> M\<close> \<open>M < 2 ^ 53\<close>
  note eq = \<open>M * S = m * s\<close>
  note S = \<open>S = s * 2 powr of_int k\<close>
  from eq S pos have ratio: "M * 2 powr of_int k = m"
    by simp
  show ?case
  proof (cases "2 ^ 53 \<le> m")
    case True
    have step: "normalise m s = normalise (m / 2) (s * 2)"
      using True pos by (simp add: normalise.simps [of m s])
    have "M < M * 2 powr of_int k" using ratio True M by linarith
    then have "1 < (2::real) powr of_int k" using M by simp
    then have k: "0 < k" by (simp only: two_powr_int_gt_one)
    have S': "S = s * 2 * 2 powr of_int (k - 1)"
      by (simp add: S two_powr_pred)
    have eq': "M * S = m / 2 * (s * 2)" using eq by simp
    have "\<not> m \<le> 0" "0 < m / 2" "0 < s * 2" using pos by simp_all
    from "1.IH"(1) [OF this(1) True this(2) this(3) M eq' S'] step
    show ?thesis by simp
  next
    case False
    show ?thesis
    proof (cases "m < 2 ^ 52")
      case True
      have step: "normalise m s = normalise (m * 2) (s / 2)"
        using True False pos by (simp add: normalise.simps [of m s])
      have "M * 2 powr of_int k < M" using ratio True M by linarith
      then have "(2::real) powr of_int k < 1" using M by simp
      then have k: "k < 0" by (simp only: two_powr_int_lt_one)
      have S': "S = s / 2 * 2 powr of_int (k + 1)"
        by (simp add: S two_powr_succ)
      have eq': "M * S = m * 2 * (s / 2)" using eq by simp
      have "\<not> m \<le> 0" "0 < m * 2" "0 < s / 2" using pos by simp_all
      from "1.IH"(2) [OF this(1) False True this(2) this(3) M eq' S'] step
      show ?thesis by simp
    next
      case F2: False
      have step: "normalise m s = (m, s)"
        using F2 False pos by (simp add: normalise.simps [of m s])
      have "\<not> 0 < k"
      proof
        assume "0 < k"
        then have "1 \<le> k - 1 + 1" "0 \<le> k - 1" by simp_all
        have "(2::real) powr of_int 1 \<le> 2 powr of_int k"
          using \<open>0 < k\<close> by (intro powr_mono) simp_all
        then have "2 \<le> (2::real) powr of_int k" by simp
        then have "M * 2 \<le> M * 2 powr of_int k"
          using M by (intro mult_left_mono) simp_all
        then have "M * 2 \<le> m" by (simp only: ratio)
        with M(1) have "2 ^ 53 \<le> m" by simp
        with False show False by simp
      qed
      moreover have "\<not> k < 0"
      proof
        assume "k < 0"
        have "(2::real) powr of_int k \<le> 2 powr of_int (- 1)"
          using \<open>k < 0\<close> by (intro powr_mono) simp_all
        then have "(2::real) powr of_int k \<le> 1 / 2" by (simp add: powr_minus_divide)
        then have "M * 2 powr of_int k \<le> M * (1 / 2)"
          using M by (intro mult_left_mono) simp_all
        then have "m \<le> M * (1 / 2)" by (simp only: ratio)
        with M(2) have "m < 2 ^ 52" by simp
        with F2 show False by simp
      qed
      ultimately have "k = 0" by simp
      with ratio S have "M = m" "S = s" by simp_all
      with step show ?thesis by simp
    qed
  qed
qed

lemma sgn_mult_abs_int: "sgn (real_of_int n) * real_of_int \<bar>n\<bar> = real_of_int n"
  by (simp add: sgn_if)

lemma fl_representable:
  assumes "2 ^ 52 \<le> \<bar>n\<bar>" and "\<bar>n\<bar> \<le> 2 ^ 53"
  shows "fl (of_int n * 2 powr of_int j) = of_int n * 2 powr of_int j"
proof -
  let ?x = "real_of_int n * 2 powr of_int j"
  have n0: "n \<noteq> 0" using assms(1) by auto
  have x0: "?x \<noteq> 0" using n0 by simp
  have ax: "\<bar>?x\<bar> = of_int \<bar>n\<bar> * 2 powr of_int j"
    by (simp add: abs_mult)
  have sg: "sgn ?x = sgn (of_int n)"
    by (simp add: sgn_mult)
  show ?thesis
  proof (cases "\<bar>n\<bar> = 2 ^ 53")
    case True
    have "normalise \<bar>?x\<bar> 1 = (2 ^ 52, 1 * 2 powr of_int (j + 1))"
    proof (rule normalise_unique [where k = "j + 1"])
      show "2 ^ 52 * (1 * 2 powr real_of_int (j + 1)) = \<bar>?x\<bar> * 1"
        by (simp add: ax True two_powr_succ)
    qed (use x0 in simp_all)
    then have "fl ?x = sgn (of_int n) * of_int (round_half_even (2 ^ 52)) * (2 powr of_int (j + 1))"
      using x0 by (simp add: fl_def sg del: of_int_mult)
    also have "round_half_even (2 ^ 52) = 2 ^ 52"
      using round_half_even_of_int [of "2 ^ 52"] by simp
    also have "sgn (real_of_int n) * of_int (2 ^ 52) * (2 powr of_int (j + 1))
        = sgn (real_of_int n) * of_int \<bar>n\<bar> * 2 powr of_int j"
      by (simp add: True two_powr_succ)
    also have "\<dots> = ?x"
      by (simp only: sgn_mult_abs_int)
    finally show ?thesis .
  next
    case False
    with assms have lt: "\<bar>n\<bar> < 2 ^ 53" by simp
    have "normalise \<bar>?x\<bar> 1 = (of_int \<bar>n\<bar>, 1 * 2 powr of_int j)"
    proof (rule normalise_unique [where k = j])
      show "(2::real) ^ 52 \<le> of_int \<bar>n\<bar>"
        using assms(1) by (metis of_int_le_iff of_int_numeral of_int_power)
      show "real_of_int \<bar>n\<bar> < 2 ^ 53"
        using lt by (metis of_int_less_iff of_int_numeral of_int_power)
      show "real_of_int \<bar>n\<bar> * (1 * 2 powr real_of_int j) = \<bar>?x\<bar> * 1"
        by (simp add: ax)
    qed (use x0 in simp_all)
    then have "fl ?x = sgn (of_int n) * of_int (round_half_even (of_int \<bar>n\<bar>)) * (2 powr of_int j)"
      using x0 by (simp add: fl_def sg del: of_int_mult of_int_abs)
    also have "\<dots> = sgn (real_of_int n) * of_int \<bar>n\<bar> * 2 powr of_int j"
      by (simp only: round_half_even_of_int)
    also have "\<dots> = ?x"
      by (simp only: sgn_mult_abs_int)
    finally show ?thesis .
  qed
qed

text \<open>A binary64 number is rounded to itself.\<close>

lemma fl_idem: "fl (fl x) = fl x"
proof (cases "x = 0")
  case True
  then show ?thesis by (simp add: fl_def)
next
  case False
  obtain m s where n: "normalise \<bar>x\<bar> 1 = (m, s)" by (cases "normalise \<bar>x\<bar> 1")
  from False have "0 < \<bar>x\<bar>" by simp
  from normalise_props [OF this _ n]
  have p: "2 ^ 52 \<le> m" "m < 2 ^ 53" and "\<exists>j::int. s = 1 * 2 powr of_int j" by simp_all
  then obtain j :: int where s: "s = 2 powr of_int j" by auto
  let ?r = "round_half_even m"
  have lo: "2 ^ 52 \<le> ?r"
  proof -
    have "(2::real) ^ 52 - 1 < real_of_int ?r"
      using round_half_even_error [of m] p(1) by linarith
    then have "real_of_int (2 ^ 52 - 1) < real_of_int ?r" by simp
    then have "2 ^ 52 - 1 < ?r" by (simp only: of_int_less_iff)
    then show ?thesis by simp
  qed
  have hi: "?r \<le> 2 ^ 53"
  proof -
    have "real_of_int ?r < (2::real) ^ 53 + 1"
      using round_half_even_error [of m] p(2) by linarith
    then have "real_of_int ?r < real_of_int (2 ^ 53 + 1)" by simp
    then have "?r < 2 ^ 53 + 1" by (simp only: of_int_less_iff)
    then show ?thesis by simp
  qed
  have f: "fl x = of_int (sgn x' * ?r) * 2 powr of_int j" if "x' = (if 0 < x then 1 else - 1)" for x' :: int
    using False n that by (simp add: fl_def s sgn_if)
  define x' :: int where "x' = (if 0 < x then 1 else - 1)"
  have a: "\<bar>sgn x' * ?r\<bar> = ?r" using lo by (simp add: x'_def abs_mult)
  have "fl (of_int (sgn x' * ?r) * 2 powr of_int j) = of_int (sgn x' * ?r) * 2 powr of_int j"
    by (rule fl_representable) (simp_all only: a lo hi)
  then show ?thesis by (simp only: f [OF x'_def])
qed

section \<open>Properties of \<open>Math.round\<close>\<close>

lemma Math_round_less_zero: "Math_round v < 0 \<longleftrightarrow> v < - (1 / 2)"
  unfolding Math_round_def by (simp add: floor_less_iff) linarith

lemma Math_round_ge: "Math_round v \<ge> k \<longleftrightarrow> of_int k - 1 / 2 \<le> v"
  unfolding Math_round_def by (simp add: le_floor_iff) linarith

lemma Math_round_half: "Math_round (of_int n + 1 / 2) = n + 1"
proof -
  have "of_int n + 1 / 2 + 1 / 2 = (of_int (n + 1) :: real)" by simp
  then show ?thesis unfolding Math_round_def by (simp only: floor_of_int)
qed

lemma Math_round_zero: "Math_round v = 0 \<longleftrightarrow> - (1 / 2) \<le> v \<and> v < 1 / 2"
  unfolding Math_round_def by (simp add: floor_eq_iff) linarith

text \<open>The result is an integer closest to the argument.\<close>

lemma Math_round_nearest: "\<bar>x - of_int (Math_round x)\<bar> \<le> 1 / 2"
  unfolding Math_round_def by linarith

section \<open>Properties of the mapper\<close>

text \<open>The definitions of the mapper without their local variables.\<close>

lemma y_offset_unfold:
  "y_offset img =
     js_divide (js_minus (height (getBoundingClientRect img))
       (js_divide (real (naturalHeight img)) (xScale img))) 2"
  by (simp add: y_offset_def Let_def)

lemma x_offset_unfold:
  "x_offset img =
     js_divide (js_minus (width (getBoundingClientRect img))
       (js_divide (real (naturalWidth img)) (yScale img))) 2"
  by (simp add: x_offset_def Let_def)

lemma width_constrained_unfold:
  "width_constrained evt =
     (Math_round (js_times
        (js_minus (clientX evt) (left (getBoundingClientRect (currentTarget evt))))
        (xScale (currentTarget evt))),
      Math_round (js_times
        (js_minus (js_minus (clientY evt) (top_edge (getBoundingClientRect (currentTarget evt))))
           (y_offset (currentTarget evt)))
        (xScale (currentTarget evt))))"
  by (simp add: width_constrained_def Let_def)

lemma height_constrained_unfold:
  "height_constrained evt =
     (Math_round (js_times
        (js_minus (js_minus (clientX evt) (left (getBoundingClientRect (currentTarget evt))))
           (x_offset (currentTarget evt)))
        (yScale (currentTarget evt))),
      Math_round (js_times
        (js_minus (clientY evt) (top_edge (getBoundingClientRect (currentTarget evt))))
        (yScale (currentTarget evt))))"
  by (simp add: height_constrained_def Let_def)

text \<open>
  The equations that evaluate the numbers and the mapper on concrete inputs.
\<close>

lemmas number_defs =
  js_minus_def js_times_def js_divide_def fl_def round_half_even_def normalise.simps
  Math_round_def

lemmas mapper_defs =
  get_coordinates_of_clicked_image_def clicked_xy_def width_constrained_unfold
  height_constrained_unfold y_offset_unfold x_offset_unfold xScale_def yScale_def click_at_def
  image_in_box_def positive_geometry_def

lemma bounds_None:
  "get_coordinates_of_clicked_image evt = None \<longleftrightarrow>
     fst (clicked_xy evt) < 0 \<or> fst (clicked_xy evt) \<ge> int (naturalWidth (currentTarget evt)) \<or>
     snd (clicked_xy evt) < 0 \<or> snd (clicked_xy evt) \<ge> int (naturalHeight (currentTarget evt))"
  by (simp add: get_coordinates_of_clicked_image_def Let_def split: prod.splits)

lemma bounds_Some:
  "get_coordinates_of_clicked_image evt =
     (if 0 \<le> fst (clicked_xy evt) \<and> fst (clicked_xy evt) < int (naturalWidth (currentTarget evt)) \<and>
         0 \<le> snd (clicked_xy evt) \<and> snd (clicked_xy evt) < int (naturalHeight (currentTarget evt))
      then Some (clicked_xy evt) else None)"
  by (auto simp: get_coordinates_of_clicked_image_def Let_def split: prod.splits)

lemma click_at_simps:
  "currentTarget (click_at img dx dy) = img"
  "js_minus (clientX (click_at img dx dy)) (left (getBoundingClientRect img)) = fl dx"
  "js_minus (clientY (click_at img dx dy)) (top_edge (getBoundingClientRect img)) = fl dy"
  by (simp_all add: click_at_def js_minus_def)

lemma width_constrained_click_at:
  "width_constrained (click_at img dx dy) =
     (Math_round (js_times (fl dx) (xScale img)),
      Math_round (js_times (js_minus (fl dy) (y_offset img)) (xScale img)))"
  by (simp add: width_constrained_def click_at_simps)

lemma height_constrained_click_at:
  "height_constrained (click_at img dx dy) =
     (Math_round (js_times (js_minus (fl dx) (x_offset img)) (yScale img)),
      Math_round (js_times (fl dy) (yScale img)))"
  by (simp add: height_constrained_def click_at_simps)

section \<open>The accuracy of the mapper\<close>

text \<open>
  Each operation of the source has a relative error of at most \<open>unit_roundoff\<close>. The
  lemmas of this section carry this bound through the offset and through the scaled
  coordinate that the mapper computes.
\<close>

lemma unit_roundoff_bounds: "0 < unit_roundoff" "unit_roundoff \<le> 1 / 2 ^ 53"
  by (simp_all add: unit_roundoff_def)

lemma fl_error_u: "\<bar>fl x - x\<bar> \<le> unit_roundoff * \<bar>x\<bar>"
  using fl_error [of x] by (simp add: unit_roundoff_def)

lemma fl_abs_le: "\<bar>fl x\<bar> \<le> \<bar>x\<bar> + unit_roundoff * \<bar>x\<bar>"
  using fl_error_u [of x] by linarith

lemma fl_nonneg: "0 \<le> x \<Longrightarrow> 0 \<le> fl x"
  using fl_pos [of x] fl_zero by (cases "x = 0") simp_all

text \<open>A small multiple of a bound is below the bound.\<close>

lemma u_mult_le:
  assumes "0 \<le> X" and "c * unit_roundoff \<le> 1"  and "0 \<le> c"
  shows "c * (unit_roundoff * X) \<le> X"
proof -
  have "c * unit_roundoff * X \<le> 1 * X"
    using assms by (intro mult_right_mono) simp_all
  then show ?thesis by (simp add: mult.assoc)
qed

lemma coord_approx:
  assumes "0 < \<sigma>"
  shows "\<bar>js_times (js_minus (fl d) o') \<sigma> - (d - o') * \<sigma>\<bar>
           \<le> 5 * (unit_roundoff * ((\<bar>d\<bar> + \<bar>o'\<bar>) * \<sigma>))"
proof -
  define u where "u = unit_roundoff"
  define S where "S = \<bar>d\<bar> + \<bar>o'\<bar>"
  define a where "a = fl d"
  define b where "b = fl (a - o')"
  define v where "v = fl (b * \<sigma>)"
  have u: "0 < u" "u \<le> 1" using unit_roundoff_bounds by (simp_all add: u_def)
  have S: "0 \<le> S" by (simp add: S_def)
  have uS: "0 \<le> u * S" using u S by simp
  have ea: "\<bar>a - d\<bar> \<le> u * \<bar>d\<bar>" unfolding a_def u_def by (rule fl_error_u)
  have ud: "u * \<bar>d\<bar> \<le> u * S" "u * \<bar>o'\<bar> \<le> u * S" "u * \<bar>d\<bar> \<le> \<bar>d\<bar>"
    using u by (simp_all add: S_def mult_left_le_one_le)
  have eb: "\<bar>b - (a - o')\<bar> \<le> u * \<bar>a - o'\<bar>" unfolding b_def u_def by (rule fl_error_u)
  have "\<bar>a - o'\<bar> \<le> 2 * S" using ea ud by (simp add: S_def) linarith
  then have "u * \<bar>a - o'\<bar> \<le> u * (2 * S)" using u by (simp only: mult_left_mono less_imp_le)
  with eb have eb': "\<bar>b - (a - o')\<bar> \<le> 2 * (u * S)" by simp
  have bz: "\<bar>b - (d - o')\<bar> \<le> 3 * (u * S)" using ea eb' ud by linarith
  have "u * S \<le> S" using u S by (simp add: mult_left_le_one_le)
  moreover have "3 * (u * S) \<le> S"
    using u_mult_le [of S 3] S unit_roundoff_bounds by (simp add: u_def)
  ultimately have bS: "\<bar>b\<bar> \<le> 2 * S" using bz by (simp add: S_def) linarith
  have ev: "\<bar>v - b * \<sigma>\<bar> \<le> u * \<bar>b * \<sigma>\<bar>" unfolding v_def u_def by (rule fl_error_u)
  have "\<bar>b * \<sigma>\<bar> = \<bar>b\<bar> * \<sigma>" using assms by (simp add: abs_mult)
  also have "\<dots> \<le> 2 * S * \<sigma>" using bS assms by (simp only: mult_right_mono less_imp_le)
  finally have "u * \<bar>b * \<sigma>\<bar> \<le> u * (2 * S * \<sigma>)" using u by (simp only: mult_left_mono less_imp_le)
  with ev have ev': "\<bar>v - b * \<sigma>\<bar> \<le> 2 * (u * (S * \<sigma>))" by (simp add: mult.assoc)
  have "\<bar>b * \<sigma> - (d - o') * \<sigma>\<bar> = \<bar>b - (d - o')\<bar> * \<sigma>"
    using assms by (simp add: abs_mult flip: left_diff_distrib)
  also have "\<dots> \<le> 3 * (u * S) * \<sigma>" using bz assms by (simp only: mult_right_mono less_imp_le)
  finally have eb'': "\<bar>b * \<sigma> - (d - o') * \<sigma>\<bar> \<le> 3 * (u * (S * \<sigma>))" by (simp add: mult.assoc)
  have "\<bar>v - (d - o') * \<sigma>\<bar> \<le> 5 * (u * (S * \<sigma>))" using ev' eb'' by linarith
  then show ?thesis
    by (simp add: v_def b_def a_def u_def S_def js_times_def js_minus_def)
qed

lemma offset_approx:
  assumes "0 \<le> L" and "0 \<le> n" and "0 < \<sigma>"
  defines "o' \<equiv> js_divide (js_minus L (js_divide n \<sigma>)) 2"
  shows "\<bar>(L - 2 * o') * \<sigma> - n\<bar> \<le> 3 * (unit_roundoff * (L * \<sigma>)) + 7 * (unit_roundoff * n)"
    and "\<bar>o'\<bar> * \<sigma> \<le> 2 * (L * \<sigma>) + 4 * n"
proof -
  define u where "u = unit_roundoff"
  define dh where "dh = fl (n / \<sigma>)"
  define d1 where "d1 = fl (L - dh)"
  have o': "o' = fl (d1 / 2)"
    by (simp add: o'_def d1_def dh_def js_divide_def js_minus_def)
  have u: "0 < u" "u \<le> 1" using unit_roundoff_bounds by (simp_all add: u_def)
  have L\<sigma>: "0 \<le> L * \<sigma>" using assms by simp
  have dh0: "0 \<le> dh" unfolding dh_def using assms by (intro fl_nonneg) simp
  have "\<bar>dh - n / \<sigma>\<bar> \<le> u * \<bar>n / \<sigma>\<bar>" unfolding dh_def u_def by (rule fl_error_u)
  then have "\<bar>dh - n / \<sigma>\<bar> * \<sigma> \<le> u * \<bar>n / \<sigma>\<bar> * \<sigma>"
    using assms(3) by (simp only: mult_right_mono less_imp_le)
  moreover have "\<bar>dh - n / \<sigma>\<bar> * \<sigma> = \<bar>dh * \<sigma> - n\<bar>"
  proof -
    have "\<bar>dh - n / \<sigma>\<bar> * \<sigma> = \<bar>(dh - n / \<sigma>) * \<sigma>\<bar>"
      using assms(3) by (simp add: abs_mult)
    also have "(dh - n / \<sigma>) * \<sigma> = dh * \<sigma> - n"
      using assms(3) by (simp add: field_simps)
    finally show ?thesis .
  qed
  moreover have "u * \<bar>n / \<sigma>\<bar> * \<sigma> = u * n"
    using assms by simp
  ultimately have edh: "\<bar>dh * \<sigma> - n\<bar> \<le> u * n" by simp
  have un: "0 \<le> u * n" "u * n \<le> n" using u assms by (simp_all add: mult_left_le_one_le)
  have dh\<sigma>: "0 \<le> dh * \<sigma>" "dh * \<sigma> \<le> 2 * n"
  proof -
    show "0 \<le> dh * \<sigma>" using dh0 assms(3) by simp
    show "dh * \<sigma> \<le> 2 * n" using edh un by linarith
  qed
  define T where "T = L + dh"
  have T: "0 \<le> T" using assms dh0 by (simp add: T_def)
  have T\<sigma>: "T * \<sigma> \<le> L * \<sigma> + 2 * n" using dh\<sigma> by (simp add: T_def algebra_simps)
  have uT: "0 \<le> u * T" "u * T \<le> T" using u T by (simp_all add: mult_left_le_one_le)
  have "\<bar>d1 - (L - dh)\<bar> \<le> u * \<bar>L - dh\<bar>" unfolding d1_def u_def by (rule fl_error_u)
  moreover have "u * \<bar>L - dh\<bar> \<le> u * T"
    using u assms dh0 by (intro mult_left_mono) (simp_all add: T_def)
  ultimately have ed1: "\<bar>d1 - (L - dh)\<bar> \<le> u * T" by simp
  have d1T: "\<bar>d1\<bar> \<le> 2 * T" using ed1 uT assms dh0 by (simp add: T_def)
  have "\<bar>o' - d1 / 2\<bar> \<le> u * \<bar>d1 / 2\<bar>" unfolding o' u_def by (rule fl_error_u)
  moreover have "u * \<bar>d1 / 2\<bar> \<le> u * T"
    using u d1T by (intro mult_left_mono) simp_all
  ultimately have eo: "\<bar>o' - d1 / 2\<bar> \<le> u * T" by simp
  have "\<bar>(L - 2 * o') - dh\<bar> \<le> 3 * (u * T)" using eo ed1 by linarith
  then have "\<bar>(L - 2 * o') - dh\<bar> * \<sigma> \<le> 3 * (u * T) * \<sigma>"
    using assms(3) by (simp only: mult_right_mono less_imp_le)
  moreover have "\<bar>(L - 2 * o') - dh\<bar> * \<sigma> = \<bar>(L - 2 * o') * \<sigma> - dh * \<sigma>\<bar>"
  proof -
    have "\<bar>(L - 2 * o') - dh\<bar> * \<sigma> = \<bar>((L - 2 * o') - dh) * \<sigma>\<bar>"
      using assms(3) by (simp add: abs_mult)
    also have "((L - 2 * o') - dh) * \<sigma> = (L - 2 * o') * \<sigma> - dh * \<sigma>"
      by (simp add: algebra_simps)
    finally show ?thesis .
  qed
  moreover have "3 * (u * T) * \<sigma> \<le> 3 * (u * (L * \<sigma>)) + 6 * (u * n)"
  proof -
    have "u * (T * \<sigma>) \<le> u * (L * \<sigma> + 2 * n)"
      using u T\<sigma> by (simp only: mult_left_mono less_imp_le)
    then show ?thesis by (simp add: algebra_simps)
  qed
  ultimately have "\<bar>(L - 2 * o') * \<sigma> - dh * \<sigma>\<bar> \<le> 3 * (u * (L * \<sigma>)) + 6 * (u * n)"
    by simp
  with edh show "\<bar>(L - 2 * o') * \<sigma> - n\<bar> \<le> 3 * (unit_roundoff * (L * \<sigma>)) + 7 * (unit_roundoff * n)"
    unfolding u_def by linarith
  have "\<bar>o'\<bar> \<le> 2 * T" using eo d1T uT by linarith
  then have "\<bar>o'\<bar> * \<sigma> \<le> 2 * T * \<sigma>"
    using assms(3) by (simp only: mult_right_mono less_imp_le)
  with T\<sigma> show "\<bar>o'\<bar> * \<sigma> \<le> 2 * (L * \<sigma>) + 4 * n" by simp
qed

lemma scale_times_extent:
  assumes "0 < L" and "0 < n"
  shows "0 < fl (n / L)" and "\<bar>L * fl (n / L) - n\<bar> \<le> unit_roundoff * n"
proof -
  show "0 < fl (n / L)" using assms by (intro fl_pos) simp
  have "\<bar>fl (n / L) - n / L\<bar> \<le> unit_roundoff * \<bar>n / L\<bar>" by (rule fl_error_u)
  then have "\<bar>fl (n / L) - n / L\<bar> * L \<le> unit_roundoff * \<bar>n / L\<bar> * L"
    using assms(1) by (simp only: mult_right_mono less_imp_le)
  moreover have "\<bar>fl (n / L) - n / L\<bar> * L = \<bar>L * fl (n / L) - n\<bar>"
  proof -
    have "\<bar>fl (n / L) - n / L\<bar> * L = \<bar>(fl (n / L) - n / L) * L\<bar>"
      using assms(1) by (simp add: abs_mult)
    also have "(fl (n / L) - n / L) * L = L * fl (n / L) - n"
      using assms(1) by (simp add: field_simps)
    finally show ?thesis .
  qed
  moreover have "unit_roundoff * \<bar>n / L\<bar> * L = unit_roundoff * n"
    using assms by simp
  ultimately show "\<bar>L * fl (n / L) - n\<bar> \<le> unit_roundoff * n" by simp
qed

lemma tie_offset_small:
  assumes "0 < L" and "0 < n" and "\<sigma> = fl (n / L)"
  shows "\<bar>js_divide (js_minus L (js_divide n \<sigma>)) 2\<bar> * \<sigma> \<le> 7 * (unit_roundoff * n)"
proof -
  define u where "u = unit_roundoff"
  define o' where "o' = js_divide (js_minus L (js_divide n \<sigma>)) 2"
  have u: "0 < u" "u \<le> 1" using unit_roundoff_bounds by (simp_all add: u_def)
  have \<sigma>: "0 < \<sigma>" and L\<sigma>: "\<bar>L * \<sigma> - n\<bar> \<le> u * n"
    using scale_times_extent [OF assms(1,2)] by (simp_all add: assms(3) u_def)
  have un: "0 \<le> u * n" "u * n \<le> n" using u assms by (simp_all add: mult_left_le_one_le)
  have L\<sigma>2: "L * \<sigma> \<le> 2 * n" using L\<sigma> un by linarith
  have "u * (L * \<sigma>) \<le> u * (2 * n)" using u L\<sigma>2 by (simp only: mult_left_mono less_imp_le)
  then have uL: "u * (L * \<sigma>) \<le> 2 * (u * n)" by simp
  have "\<bar>(L - 2 * o') * \<sigma> - n\<bar> \<le> 3 * (u * (L * \<sigma>)) + 7 * (u * n)"
    unfolding o'_def u_def using assms \<sigma> by (intro offset_approx(1)) simp_all
  with uL have g: "\<bar>(L - 2 * o') * \<sigma> - n\<bar> \<le> 13 * (u * n)" by linarith
  have "(L - 2 * o') * \<sigma> = L * \<sigma> - 2 * (o' * \<sigma>)" by (simp add: algebra_simps)
  with g L\<sigma> have "\<bar>o' * \<sigma>\<bar> \<le> 7 * (u * n)" by linarith
  moreover have "\<bar>o' * \<sigma>\<bar> = \<bar>o'\<bar> * \<sigma>" using \<sigma> by (simp add: abs_mult)
  ultimately show ?thesis by (simp add: o'_def u_def)
qed

lemma centre_coordinate:
  assumes "0 < L" and "0 < n" and "n \<le> 2 ^ 32" and "\<sigma> = fl (n / L)"
    and "\<bar>o'\<bar> * \<sigma> \<le> 7 * (unit_roundoff * n)"
  shows "\<bar>js_times (js_minus (fl (L / 2)) o') \<sigma> - n / 2\<bar> \<le> 1 / 4"
proof -
  define u where "u = unit_roundoff"
  define v where "v = js_times (js_minus (fl (L / 2)) o') \<sigma>"
  have u: "0 < u" "u \<le> 1" using unit_roundoff_bounds by (simp_all add: u_def)
  have \<sigma>: "0 < \<sigma>" and L\<sigma>: "\<bar>L * \<sigma> - n\<bar> \<le> u * n"
    using scale_times_extent [OF assms(1,2)] by (simp_all add: assms(4) u_def)
  have un: "0 \<le> u * n" "u * n \<le> n" using u assms by (simp_all add: mult_left_le_one_le)
  have small: "u * n \<le> 1 / 2 ^ 21"
  proof -
    have "u * n \<le> 1 / 2 ^ 53 * 2 ^ 32"
      using assms(2,3) unit_roundoff_bounds by (intro mult_mono) (simp_all add: u_def)
    then show ?thesis by simp
  qed
  have o\<sigma>: "\<bar>o'\<bar> * \<sigma> \<le> 7 * (u * n)" using assms(5) by (simp add: u_def)
  have "7 * (u * n) \<le> n" using u_mult_le [of n 7] assms(2) unit_roundoff_bounds
    by (simp add: u_def)
  with o\<sigma> have o\<sigma>n: "\<bar>o'\<bar> * \<sigma> \<le> n" by simp
  have "(\<bar>L / 2\<bar> + \<bar>o'\<bar>) * \<sigma> = L * \<sigma> / 2 + \<bar>o'\<bar> * \<sigma>"
    using assms(1) by (simp add: algebra_simps)
  also have "\<dots> \<le> 2 * n" using L\<sigma> un o\<sigma>n by linarith
  finally have "u * ((\<bar>L / 2\<bar> + \<bar>o'\<bar>) * \<sigma>) \<le> u * (2 * n)"
    using u by (simp only: mult_left_mono less_imp_le)
  moreover have "\<bar>v - (L / 2 - o') * \<sigma>\<bar> \<le> 5 * (u * ((\<bar>L / 2\<bar> + \<bar>o'\<bar>) * \<sigma>))"
    unfolding v_def u_def using \<sigma> by (rule coord_approx)
  ultimately have g1: "\<bar>v - (L / 2 - o') * \<sigma>\<bar> \<le> 10 * (u * n)" by simp
  have "(L / 2 - o') * \<sigma> = L * \<sigma> / 2 - o' * \<sigma>" by (simp add: algebra_simps)
  moreover have "\<bar>o' * \<sigma>\<bar> \<le> 7 * (u * n)" using o\<sigma> \<sigma> by (simp add: abs_mult)
  ultimately have "\<bar>(L / 2 - o') * \<sigma> - n / 2\<bar> \<le> 8 * (u * n)" using L\<sigma> by linarith
  with g1 have "\<bar>v - n / 2\<bar> \<le> 18 * (u * n)" by linarith
  also have "\<dots> \<le> 1 / 4" using small by simp
  finally show ?thesis by (simp add: v_def)
qed

lemma Math_round_half_integer:
  assumes "\<bar>v - real_of_int m / 2\<bar> \<le> 1 / 4"
  shows "\<bar>real_of_int (Math_round v) - real_of_int m / 2\<bar> \<le> 1 / 2"
proof -
  define r where "r = Math_round v"
  have r: "real_of_int r \<le> v + 1 / 2" "v + 1 / 2 < real_of_int r + 1"
    unfolding r_def Math_round_def by linarith+
  have a: "v \<le> real_of_int m / 2 + 1 / 4" "real_of_int m / 2 - 1 / 4 \<le> v"
    using assms by linarith+
  have "2 * real_of_int r - real_of_int m < 2" using r a by linarith
  then have "real_of_int (2 * r - m) < real_of_int 2" by simp
  then have hi: "2 * r - m < 2" by (simp only: of_int_less_iff)
  have "- 2 < 2 * real_of_int r - real_of_int m" using r a by linarith
  then have "real_of_int (- 2) < real_of_int (2 * r - m)" by simp
  then have lo: "- 2 < 2 * r - m" by (simp only: of_int_less_iff)
  from hi lo have "- 1 \<le> 2 * r - m" "2 * r - m \<le> 1" by simp_all
  then have "real_of_int (- 1) \<le> real_of_int (2 * r - m)" "real_of_int (2 * r - m) \<le> real_of_int 1"
    by (simp_all only: of_int_le_iff)
  then have "- 1 \<le> 2 * real_of_int r - real_of_int m" "2 * real_of_int r - real_of_int m \<le> 1"
    by simp_all
  then show ?thesis unfolding r_def by linarith
qed

lemma band_coordinate:
  fixes n :: nat and d L \<sigma> :: real
  assumes "0 < L" and "n < 2 ^ 32" and "0 < \<sigma>" and "L * \<sigma> \<le> 2 ^ 32"
  defines "o' \<equiv> js_divide (js_minus L (js_divide (real n) \<sigma>)) 2"
  defines "v \<equiv> js_times (js_minus (fl d) o') \<sigma>"
  shows "L - o' < d \<and> d < L \<Longrightarrow> int n \<le> Math_round v"
    and "0 < d \<and> d < o' \<and> 1 / 2 + 1 / 1000 \<le> (o' - d) * \<sigma> \<Longrightarrow> Math_round v < 0"
    and "0 < d \<and> d < o' \<and> (o' - d) * \<sigma> \<le> 1 / 2 - 1 / 1000 \<Longrightarrow> Math_round v = 0"
proof -
  define u where "u = unit_roundoff"
  have u: "0 < u" "u \<le> 1 / 2 ^ 53" using unit_roundoff_bounds by (simp_all add: u_def)
  have n: "0 \<le> real n" "real n \<le> 2 ^ 32"
  proof -
    have "real n < real (2 ^ 32)" using assms(2) by (simp only: of_nat_less_iff)
    then show "real n \<le> 2 ^ 32" by simp
  qed simp
  have L\<sigma>: "0 \<le> L * \<sigma>" using assms(1,3) by simp
  have o\<sigma>: "\<bar>o'\<bar> * \<sigma> \<le> 2 * (L * \<sigma>) + 4 * real n"
    and e2: "\<bar>(L - 2 * o') * \<sigma> - real n\<bar> \<le> 3 * (u * (L * \<sigma>)) + 7 * (u * real n)"
    unfolding o'_def u_def using assms(1,3) by (intro offset_approx; simp)+
  have e1: "\<bar>v - (d - o') * \<sigma>\<bar> \<le> 5 * (u * ((\<bar>d\<bar> + \<bar>o'\<bar>) * \<sigma>))"
    unfolding v_def u_def using assms(3) by (rule coord_approx)
  have uB: "u * X \<le> X / 2 ^ 53" if "0 \<le> X" for X
  proof -
    have "u * X \<le> 1 / 2 ^ 53 * X" using u(2) that by (rule mult_right_mono)
    then show ?thesis by simp
  qed
  have E2: "3 * (u * (L * \<sigma>)) + 7 * (u * real n) \<le> 1 / 2000"
  proof -
    have "u * (L * \<sigma>) \<le> 2 ^ 32 / 2 ^ 53" "u * real n \<le> 2 ^ 32 / 2 ^ 53"
      using uB [OF L\<sigma>] uB [OF n(1)] assms(4) n(2) by (simp_all add: field_simps)
    then show ?thesis by simp
  qed
  have E1: "5 * (u * ((\<bar>d\<bar> + \<bar>o'\<bar>) * \<sigma>)) \<le> 1 / 2000" if "\<bar>d\<bar> \<le> L + \<bar>o'\<bar>"
  proof -
    have "(\<bar>d\<bar> + \<bar>o'\<bar>) * \<sigma> \<le> (L + 2 * \<bar>o'\<bar>) * \<sigma>"
      using that assms(3) by (intro mult_right_mono) simp_all
    also have "\<dots> = L * \<sigma> + 2 * (\<bar>o'\<bar> * \<sigma>)" by (simp add: algebra_simps)
    also have "\<dots> \<le> 13 * 2 ^ 32" using o\<sigma> assms(4) n(2) by linarith
    finally have b: "(\<bar>d\<bar> + \<bar>o'\<bar>) * \<sigma> \<le> 13 * 2 ^ 32" .
    have "0 \<le> (\<bar>d\<bar> + \<bar>o'\<bar>) * \<sigma>" using assms(3) by simp
    from uB [OF this] b have "u * ((\<bar>d\<bar> + \<bar>o'\<bar>) * \<sigma>) \<le> 13 * 2 ^ 32 / 2 ^ 53"
      by (simp add: field_simps)
    then show ?thesis by simp
  qed
  show "int n \<le> Math_round v" if band: "L - o' < d \<and> d < L"
  proof -
    from band have "\<bar>d\<bar> \<le> L + \<bar>o'\<bar>" using assms(1) by linarith
    note E1 [OF this]
    moreover have "(L - 2 * o') * \<sigma> < (d - o') * \<sigma>"
      using band assms(3) by (intro mult_strict_right_mono) simp_all
    ultimately have "real n - 1 / 2 \<le> v" using e1 e2 E2 by linarith
    then have "real_of_int (int n) - 1 / 2 \<le> v" by simp
    then show "int n \<le> Math_round v" by (simp only: Math_round_ge)
  qed
  show "Math_round v < 0" if band: "0 < d \<and> d < o' \<and> 1 / 2 + 1 / 1000 \<le> (o' - d) * \<sigma>"
  proof -
    from band have "\<bar>d\<bar> \<le> L + \<bar>o'\<bar>" using assms(1) by linarith
    note E1 [OF this]
    moreover have "(d - o') * \<sigma> = - ((o' - d) * \<sigma>)" by (simp add: algebra_simps)
    ultimately have "v < - (1 / 2)" using e1 band by linarith
    then show "Math_round v < 0" by (simp only: Math_round_less_zero)
  qed
  show "Math_round v = 0" if band: "0 < d \<and> d < o' \<and> (o' - d) * \<sigma> \<le> 1 / 2 - 1 / 1000"
  proof -
    from band have "\<bar>d\<bar> \<le> L + \<bar>o'\<bar>" using assms(1) by linarith
    note E1 [OF this]
    moreover have "(d - o') * \<sigma> = - ((o' - d) * \<sigma>)" by (simp add: algebra_simps)
    moreover have "0 < (o' - d) * \<sigma>" using band assms(3) by simp
    ultimately have "- (1 / 2) \<le> v \<and> v < 1 / 2" using e1 band by linarith
    then show "Math_round v = 0" by (simp only: Math_round_zero)
  qed
qed

lemma scales_positive:
  assumes "positive_geometry img"
  shows "0 < xScale img" and "0 < yScale img"
  using assms
  by (simp_all add: positive_geometry_def xScale_def yScale_def js_divide_def fl_pos)

lemma js_minus_zero: "js_minus (fl a) 0 = fl a"
  by (simp add: js_minus_def fl_idem)

subsection \<open>The two computations\<close>

text \<open>
  C1: for an event on an image of natural size \<open>nw\<close> by \<open>nh\<close> shown in a rectangle
  \<open>w\<close> by \<open>h\<close> at \<open>(l, t)\<close>, all four positive, the coordinates that reach the bounds
  check are, when \<open>nw / w > nh / h\<close>, the rounded \<open>(clientX - l) * (nw / w)\<close> and
  the rounded \<open>(clientY - t - y_offset) * (nw / w)\<close> with
  \<open>y_offset = (h - nh / (nw / w)) / 2\<close>; and otherwise the rounded
  \<open>(clientX - l - x_offset) * (nh / h)\<close> with \<open>x_offset = (w - nw / (nh / h)) / 2\<close>
  and the rounded \<open>(clientY - t) * (nh / h)\<close>. Every \<open>-\<close>, \<open>*\<close> and \<open>/\<close> is the
  operator of the language, in the order in which the source applies it.
\<close>

theorem mapper_formulas:
  assumes "0 < nw" and "0 < nh" and "0 < w" and "0 < h"
  shows "clicked_xy \<lparr>clientX = cx, clientY = cy, currentTarget = image_in_box nw nh l t w h\<rparr> =
     (if js_divide (real nw) w > js_divide (real nh) h
      then (Math_round (js_times (js_minus cx l) (js_divide (real nw) w)),
            Math_round (js_times
              (js_minus (js_minus cy t)
                 (js_divide (js_minus h (js_divide (real nh) (js_divide (real nw) w))) 2))
              (js_divide (real nw) w)))
      else (Math_round (js_times
              (js_minus (js_minus cx l)
                 (js_divide (js_minus w (js_divide (real nw) (js_divide (real nh) h))) 2))
              (js_divide (real nh) h)),
            Math_round (js_times (js_minus cy t) (js_divide (real nh) h))))"
  by (simp add: clicked_xy_def width_constrained_unfold height_constrained_unfold
      y_offset_unfold x_offset_unfold xScale_def yScale_def image_in_box_def)

theorem mapper_formulas_witness:
  "(0::nat) < 200 \<and> (0::nat) < 100 \<and> (0::real) < 100 \<and>
   clicked_xy \<lparr>clientX = 60, clientY = 45, currentTarget = image_in_box 200 100 10 5 100 100\<rparr>
     = (100, 30) \<and>
   clicked_xy \<lparr>clientX = 60, clientY = 45, currentTarget = image_in_box 100 200 10 5 100 100\<rparr>
     = (50, 80)"
proof -
  have p: "(0::nat) < 200" "(0::nat) < 100" "(0::real) < 100" by simp_all
  show ?thesis
    using mapper_formulas [OF p(1) p(2) p(3) p(3), where cx = 60 and cy = 45 and l = 10 and t = 5]
      mapper_formulas [OF p(2) p(1) p(3) p(3), where cx = 60 and cy = 45 and l = 10 and t = 5]
    by (simp add: number_defs)
qed

subsection \<open>The bounds check\<close>

text \<open>
  C2: on a geometry of positive dimensions, the mapper returns \<open>null\<close> exactly when the
  computed \<open>x\<close> is outside \<open>[0, naturalWidth)\<close> or the computed \<open>y\<close> is outside
  \<open>[0, naturalHeight)\<close>; otherwise it returns the computed pair, and a returned pair has
  integer components within these two ranges.
\<close>

theorem bounds_check:
  assumes "positive_geometry (currentTarget evt)"
  shows "(get_coordinates_of_clicked_image evt = None \<longleftrightarrow>
            \<not> (0 \<le> fst (clicked_xy evt) \<and>
               fst (clicked_xy evt) < int (naturalWidth (currentTarget evt))) \<or>
            \<not> (0 \<le> snd (clicked_xy evt) \<and>
               snd (clicked_xy evt) < int (naturalHeight (currentTarget evt)))) \<and>
         (get_coordinates_of_clicked_image evt \<noteq> None \<longrightarrow>
            get_coordinates_of_clicked_image evt = Some (clicked_xy evt)) \<and>
         (\<forall>x y. get_coordinates_of_clicked_image evt = Some (x, y) \<longrightarrow>
            0 \<le> x \<and> x < int (naturalWidth (currentTarget evt)) \<and>
            0 \<le> y \<and> y < int (naturalHeight (currentTarget evt)))"
  by (auto simp: get_coordinates_of_clicked_image_def Let_def split: prod.splits if_splits)

theorem bounds_check_witness:
  "positive_geometry (image_in_box 200 100 10 5 100 100) \<and>
   clicked_xy (click_at (image_in_box 200 100 10 5 100 100) 50 40) = (100, 30) \<and>
   get_coordinates_of_clicked_image (click_at (image_in_box 200 100 10 5 100 100) 50 40)
     = Some (100, 30) \<and>
   clicked_xy (click_at (image_in_box 200 100 10 5 100 100) 50 95) = (100, 140) \<and>
   get_coordinates_of_clicked_image (click_at (image_in_box 200 100 10 5 100 100) 50 95)
     = None"
proof -
  let ?img = "image_in_box 200 100 10 5 100 100"
  have pos: "positive_geometry ?img"
    by (simp add: positive_geometry_def image_in_box_def)
  have inside: "clicked_xy (click_at ?img 50 40) = (100, 30)"
    and outside: "clicked_xy (click_at ?img 50 95) = (100, 140)"
    by (simp_all add: mapper_defs number_defs)
  have "positive_geometry (currentTarget (click_at ?img 50 40))"
    and "positive_geometry (currentTarget (click_at ?img 50 95))"
    using pos by (simp_all add: click_at_def)
  from bounds_check [OF this(1)] bounds_check [OF this(2)] pos inside outside
  show ?thesis
    by (simp add: click_at_def image_in_box_def)
qed

subsection \<open>The choice of the branch\<close>

text \<open>
  C7, as the specification states it, fails at a tie: for an image of natural size 7 by 35
  in a box of 3 by 15 both scales are the same number, the nearest to 7/3, and for the
  click at offset (0, 1.5) the height-constrained computation gives (0, 4) and the
  width-constrained computation (0, 3).
\<close>

theorem tie_branches_differ:
  "positive_geometry (image_in_box 7 35 0 0 3 15) \<and>
   xScale (image_in_box 7 35 0 0 3 15) = yScale (image_in_box 7 35 0 0 3 15) \<and>
   height_constrained (click_at (image_in_box 7 35 0 0 3 15) 0 (3 / 2)) = (0, 4) \<and>
   width_constrained (click_at (image_in_box 7 35 0 0 3 15) 0 (3 / 2)) = (0, 3)"
  by (simp add: mapper_defs number_defs)

text \<open>
  C7, amended: on a geometry of positive dimensions, the width-constrained computation is
  the one used when \<open>xScale > yScale\<close> and the height-constrained computation otherwise;
  a tie \<open>xScale = yScale\<close> takes the height-constrained computation; and at a tie where
  both computed offsets are 0 the two computations give the same pair.
\<close>

theorem branch_selection:
  assumes "positive_geometry (currentTarget evt)"
  shows "(xScale (currentTarget evt) > yScale (currentTarget evt) \<longrightarrow>
            clicked_xy evt = width_constrained evt) \<and>
         (\<not> xScale (currentTarget evt) > yScale (currentTarget evt) \<longrightarrow>
            clicked_xy evt = height_constrained evt) \<and>
         (xScale (currentTarget evt) = yScale (currentTarget evt) \<longrightarrow>
            clicked_xy evt = height_constrained evt) \<and>
         (xScale (currentTarget evt) = yScale (currentTarget evt) \<and>
          x_offset (currentTarget evt) = 0 \<and> y_offset (currentTarget evt) = 0 \<longrightarrow>
            height_constrained evt = width_constrained evt)"
proof -
  have "height_constrained evt = width_constrained evt"
    if "xScale (currentTarget evt) = yScale (currentTarget evt)"
      and "x_offset (currentTarget evt) = 0" and "y_offset (currentTarget evt) = 0"
    unfolding width_constrained_unfold height_constrained_unfold that
    by (simp add: js_minus_def fl_idem)
  then show ?thesis
    by (simp add: clicked_xy_def)
qed

theorem branch_selection_witness:
  "positive_geometry (image_in_box 300 200 10 5 150 100) \<and>
   xScale (image_in_box 300 200 10 5 150 100) = yScale (image_in_box 300 200 10 5 150 100) \<and>
   x_offset (image_in_box 300 200 10 5 150 100) = 0 \<and>
   y_offset (image_in_box 300 200 10 5 150 100) = 0 \<and>
   clicked_xy (click_at (image_in_box 300 200 10 5 150 100) 20 30) = (40, 60) \<and>
   height_constrained (click_at (image_in_box 300 200 10 5 150 100) 20 30) = (40, 60) \<and>
   width_constrained (click_at (image_in_box 300 200 10 5 150 100) 20 30) = (40, 60)"
proof -
  let ?img = "image_in_box 300 200 10 5 150 100"
  have pos: "positive_geometry (currentTarget (click_at ?img 20 30))"
    by (simp add: positive_geometry_def click_at_def image_in_box_def)
  have tie: "xScale ?img = yScale ?img" and off: "x_offset ?img = 0" "y_offset ?img = 0"
    by (simp_all add: xScale_def yScale_def x_offset_unfold y_offset_unfold image_in_box_def
        number_defs)
  have h: "height_constrained (click_at ?img 20 30) = (40, 60)"
    by (simp add: mapper_defs number_defs)
  show ?thesis
    using branch_selection [OF pos] pos tie off h by (simp add: click_at_def)
qed

subsection \<open>The concrete scenario\<close>

text \<open>
  C5, as the specification states it: in a box of 200 by 100 showing an image of natural
  size 400 by 100, a click at offset (50, 50) from the origin of the rectangle would map
  to (50, 50). The mapper does not return (50, 50).
\<close>

theorem scenario_not_50_50:
  "get_coordinates_of_clicked_image (click_at (image_in_box 400 100 0 0 200 100) 50 50)
     \<noteq> Some (50, 50)"
  by (simp add: mapper_defs number_defs)

text \<open>
  C5, amended: with these dimensions the horizontal scale 2 exceeds the vertical scale 1,
  the width-constrained branch is taken with a vertical offset of 25, and the click at
  offset (50, 50) maps to (100, 50), wherever the rectangle lies in the viewport.
\<close>

theorem scenario_100_50:
  "xScale (image_in_box 400 100 l t 200 100) = 2 \<and>
   yScale (image_in_box 400 100 l t 200 100) = 1 \<and>
   y_offset (image_in_box 400 100 l t 200 100) = 25 \<and>
   get_coordinates_of_clicked_image (click_at (image_in_box 400 100 l t 200 100) 50 50)
     = Some (100, 50)"
  by (simp add: mapper_defs number_defs)

subsection \<open>The padding band\<close>

text \<open>
  C6, as the specification states it, fails next to the image content: an image of natural
  size 200 by 100 in a box of 100 by 100 is shown 50 high below a band of 25, and the
  click at offset (50, 24.875), strictly inside that band, maps to (100, 0). An image of
  natural size 1 by 2 in a box of 3 by 2 is shown right of a band of 1, and the click at
  offset (0.5 - 2^-54, 1), more than half a native pixel inside that band, maps to (0, 1).
\<close>

theorem padding_band_edge:
  "xScale (image_in_box 200 100 0 0 100 100) > yScale (image_in_box 200 100 0 0 100 100) \<and>
   y_offset (image_in_box 200 100 0 0 100 100) = 25 \<and>
   (0::real) < 199 / 8 \<and> (199::real) / 8 < 25 \<and>
   get_coordinates_of_clicked_image (click_at (image_in_box 200 100 0 0 100 100) 50 (199 / 8))
     = Some (100, 0) \<and>
   \<not> xScale (image_in_box 1 2 0 0 3 2) > yScale (image_in_box 1 2 0 0 3 2) \<and>
   x_offset (image_in_box 1 2 0 0 3 2) = 1 \<and>
   (0::real) < 1 / 2 - 1 / 2 ^ 54 \<and> (1::real) / 2 - 1 / 2 ^ 54 < 1 \<and>
   (1::real) / 2 < (x_offset (image_in_box 1 2 0 0 3 2) - (1 / 2 - 1 / 2 ^ 54))
                     * yScale (image_in_box 1 2 0 0 3 2) \<and>
   get_coordinates_of_clicked_image (click_at (image_in_box 1 2 0 0 3 2) (1 / 2 - 1 / 2 ^ 54) 1)
     = Some (0, 1)"
  by (simp add: mapper_defs number_defs)

text \<open>
  C6, amended: on a geometry of positive dimensions and moderate extent, a click strictly
  inside the band after the image content (below it when \<open>xScale > yScale\<close>, right of
  it otherwise) maps to \<open>null\<close>, and so does a click strictly inside the band before
  the image content (above it, or left of it) whose distance to the content, in native
  pixels, is at least 1/2 + 1/1000. For a click of the band before the content whose
  distance to the content is at most 1/2 - 1/1000, the coordinate of the padded axis is
  computed as 0, which the bounds check accepts. Between these two distances the rounding
  errors of the arithmetic decide.
\<close>

theorem padding_band:
  assumes "positive_geometry img" and "native_extent_bounded img"
  shows "(xScale img > yScale img \<longrightarrow>
            (0 < dy \<and> dy < y_offset img \<and>
             1 / 2 + 1 / 1000 \<le> (y_offset img - dy) * xScale img) \<or>
            (height (getBoundingClientRect img) - y_offset img < dy \<and>
             dy < height (getBoundingClientRect img)) \<longrightarrow>
            get_coordinates_of_clicked_image (click_at img dx dy) = None) \<and>
         (\<not> xScale img > yScale img \<longrightarrow>
            (0 < dx \<and> dx < x_offset img \<and>
             1 / 2 + 1 / 1000 \<le> (x_offset img - dx) * yScale img) \<or>
            (width (getBoundingClientRect img) - x_offset img < dx \<and>
             dx < width (getBoundingClientRect img)) \<longrightarrow>
            get_coordinates_of_clicked_image (click_at img dx dy) = None) \<and>
         (xScale img > yScale img \<longrightarrow>
            0 < dy \<and> dy < y_offset img \<and>
            (y_offset img - dy) * xScale img \<le> 1 / 2 - 1 / 1000 \<longrightarrow>
            snd (clicked_xy (click_at img dx dy)) = 0) \<and>
         (\<not> xScale img > yScale img \<longrightarrow>
            0 < dx \<and> dx < x_offset img \<and>
            (x_offset img - dx) * yScale img \<le> 1 / 2 - 1 / 1000 \<longrightarrow>
            fst (clicked_xy (click_at img dx dy)) = 0)"
proof -
  let ?r = "getBoundingClientRect img"
  let ?evt = "click_at img dx dy"
  from assms(1) have pos: "0 < width ?r" "0 < height ?r"
    by (simp_all add: positive_geometry_def)
  from assms(2) have ext: "naturalWidth img < 2 ^ 32" "naturalHeight img < 2 ^ 32"
      "height ?r * xScale img \<le> 2 ^ 32" "width ?r * yScale img \<le> 2 ^ 32"
    by (simp_all add: native_extent_bounded_def)
  note sc = scales_positive [OF assms(1)]
  note Y = band_coordinate [OF pos(2) ext(2) sc(1) ext(3), where d = dy,
      folded y_offset_unfold]
  note X = band_coordinate [OF pos(1) ext(1) sc(2) ext(4), where d = dx,
      folded x_offset_unfold]
  have wy: "snd (clicked_xy ?evt)
      = Math_round (js_times (js_minus (fl dy) (y_offset img)) (xScale img))"
    if "xScale img > yScale img"
    using that by (simp add: clicked_xy_def click_at_simps width_constrained_click_at)
  have hx: "fst (clicked_xy ?evt)
      = Math_round (js_times (js_minus (fl dx) (x_offset img)) (yScale img))"
    if "\<not> xScale img > yScale img"
    using that by (simp add: clicked_xy_def click_at_simps height_constrained_click_at)
  have c1: "get_coordinates_of_clicked_image ?evt = None"
    if br: "xScale img > yScale img"
      and band: "(0 < dy \<and> dy < y_offset img \<and>
             1 / 2 + 1 / 1000 \<le> (y_offset img - dy) * xScale img) \<or>
            (height ?r - y_offset img < dy \<and> dy < height ?r)"
  proof -
    from band Y(1) Y(2)
    have "snd (clicked_xy ?evt) < 0 \<or> int (naturalHeight img) \<le> snd (clicked_xy ?evt)"
      unfolding wy [OF br] by blast
    then show ?thesis by (auto simp: bounds_None click_at_simps)
  qed
  have c2: "get_coordinates_of_clicked_image ?evt = None"
    if br: "\<not> xScale img > yScale img"
      and band: "(0 < dx \<and> dx < x_offset img \<and>
             1 / 2 + 1 / 1000 \<le> (x_offset img - dx) * yScale img) \<or>
            (width ?r - x_offset img < dx \<and> dx < width ?r)"
  proof -
    from band X(1) X(2)
    have "fst (clicked_xy ?evt) < 0 \<or> int (naturalWidth img) \<le> fst (clicked_xy ?evt)"
      unfolding hx [OF br] by blast
    then show ?thesis by (auto simp: bounds_None click_at_simps)
  qed
  have c3: "snd (clicked_xy ?evt) = 0"
    if br: "xScale img > yScale img"
      and "0 < dy \<and> dy < y_offset img \<and> (y_offset img - dy) * xScale img \<le> 1 / 2 - 1 / 1000"
    unfolding wy [OF br] using that(2) by (rule Y(3))
  have c4: "fst (clicked_xy ?evt) = 0"
    if br: "\<not> xScale img > yScale img"
      and "0 < dx \<and> dx < x_offset img \<and> (x_offset img - dx) * yScale img \<le> 1 / 2 - 1 / 1000"
    unfolding hx [OF br] using that(2) by (rule X(3))
  from c1 c2 c3 c4 show ?thesis by blast
qed

theorem padding_band_witness:
  "positive_geometry (image_in_box 200 100 0 0 100 100) \<and>
   native_extent_bounded (image_in_box 200 100 0 0 100 100) \<and>
   xScale (image_in_box 200 100 0 0 100 100) > yScale (image_in_box 200 100 0 0 100 100) \<and>
   y_offset (image_in_box 200 100 0 0 100 100) = 25 \<and>
   get_coordinates_of_clicked_image (click_at (image_in_box 200 100 0 0 100 100) 50 10) = None \<and>
   get_coordinates_of_clicked_image (click_at (image_in_box 200 100 0 0 100 100) 50 80) = None \<and>
   snd (clicked_xy (click_at (image_in_box 200 100 0 0 100 100) 50 (199 / 8))) = 0 \<and>
   positive_geometry (image_in_box 100 200 0 0 100 100) \<and>
   native_extent_bounded (image_in_box 100 200 0 0 100 100) \<and>
   \<not> xScale (image_in_box 100 200 0 0 100 100) > yScale (image_in_box 100 200 0 0 100 100) \<and>
   x_offset (image_in_box 100 200 0 0 100 100) = 25 \<and>
   get_coordinates_of_clicked_image (click_at (image_in_box 100 200 0 0 100 100) 10 50) = None \<and>
   get_coordinates_of_clicked_image (click_at (image_in_box 100 200 0 0 100 100) 80 50) = None \<and>
   fst (clicked_xy (click_at (image_in_box 100 200 0 0 100 100) (199 / 8) 50)) = 0"
proof -
  let ?wide = "image_in_box 200 100 0 0 100 100"
  let ?tall = "image_in_box 100 200 0 0 100 100"
  have pos: "positive_geometry ?wide" "positive_geometry ?tall"
    by (simp_all add: positive_geometry_def image_in_box_def)
  have geo: "xScale ?wide = 2" "yScale ?wide = 1" "y_offset ?wide = 25"
      "xScale ?tall = 1" "yScale ?tall = 2" "x_offset ?tall = 25"
      "height (getBoundingClientRect ?wide) = 100" "width (getBoundingClientRect ?tall) = 100"
    by (simp_all add: xScale_def yScale_def y_offset_unfold x_offset_unfold image_in_box_def
        number_defs)
  have ext: "native_extent_bounded ?wide" "native_extent_bounded ?tall"
    unfolding native_extent_bounded_def geo by (simp_all add: image_in_box_def)
  show ?thesis
    using padding_band [OF pos(1) ext(1), of 10 50] padding_band [OF pos(1) ext(1), of 80 50]
      padding_band [OF pos(1) ext(1), of "199 / 8" 50]
      padding_band [OF pos(2) ext(2), of 50 10] padding_band [OF pos(2) ext(2), of 50 80]
      padding_band [OF pos(2) ext(2), of 50 "199 / 8"] pos ext
    by (simp add: geo)
qed

subsection \<open>The centre of an image without padding\<close>

text \<open>
  C9, as the specification states it, fails in two ways. An image of natural size 1 by 1
  fills a box of 2 by 2 without padding, the click at the centre (1, 1) is computed as
  (1, 1), the rounded halves of the natural size, and the bounds check turns it into
  \<open>null\<close>. An image of natural size 3 by 3 fills a box of 47 by 47 without padding, and
  the click at the centre (23.5, 23.5) maps to (2, 1), where the rounded halves of the
  natural size are (2, 2).
\<close>

theorem center_click_one_pixel:
  "positive_geometry (image_in_box 1 1 0 0 2 2) \<and>
   width (getBoundingClientRect (image_in_box 1 1 0 0 2 2)) /
     height (getBoundingClientRect (image_in_box 1 1 0 0 2 2)) = real 1 / real 1 \<and>
   (Math_round (real 1 / 2), Math_round (real 1 / 2)) = (1, 1) \<and>
   get_coordinates_of_clicked_image (click_at (image_in_box 1 1 0 0 2 2) (2 / 2) (2 / 2)) = None \<and>
   positive_geometry (image_in_box 3 3 0 0 47 47) \<and>
   width (getBoundingClientRect (image_in_box 3 3 0 0 47 47)) /
     height (getBoundingClientRect (image_in_box 3 3 0 0 47 47)) = real 3 / real 3 \<and>
   (Math_round (real 3 / 2), Math_round (real 3 / 2)) = (2, 2) \<and>
   get_coordinates_of_clicked_image (click_at (image_in_box 3 3 0 0 47 47) (47 / 2) (47 / 2))
     = Some (2, 1)"
  by (simp add: mapper_defs number_defs)

text \<open>
  C9, amended: on a geometry of positive dimensions with natural sizes below \<open>2 ^ 32\<close>
  whose displayed ratio of width to height equals the natural one, each coordinate
  computed for a click at the exact centre of the displayed rectangle differs from half
  the natural size by at most 1/2: it is exactly the half of an even natural size, and the
  half of an odd one rounded up or down. The mapper returns the computed pair when the
  natural width and height are both at least 2.
\<close>

theorem center_click:
  assumes "positive_geometry img"
    and "width (getBoundingClientRect img) / height (getBoundingClientRect img)
           = real (naturalWidth img) / real (naturalHeight img)"
    and "naturalWidth img < 2 ^ 32" and "naturalHeight img < 2 ^ 32"
  shows "\<bar>real_of_int (fst (clicked_xy (click_at img (width (getBoundingClientRect img) / 2)
                                                      (height (getBoundingClientRect img) / 2))))
            - real (naturalWidth img) / 2\<bar> \<le> 1 / 2 \<and>
         \<bar>real_of_int (snd (clicked_xy (click_at img (width (getBoundingClientRect img) / 2)
                                                      (height (getBoundingClientRect img) / 2))))
            - real (naturalHeight img) / 2\<bar> \<le> 1 / 2 \<and>
         (even (naturalWidth img) \<longrightarrow>
            fst (clicked_xy (click_at img (width (getBoundingClientRect img) / 2)
                                          (height (getBoundingClientRect img) / 2)))
              = int (naturalWidth img) div 2) \<and>
         (even (naturalHeight img) \<longrightarrow>
            snd (clicked_xy (click_at img (width (getBoundingClientRect img) / 2)
                                          (height (getBoundingClientRect img) / 2)))
              = int (naturalHeight img) div 2) \<and>
         (2 \<le> naturalWidth img \<and> 2 \<le> naturalHeight img \<longrightarrow>
            get_coordinates_of_clicked_image
                (click_at img (width (getBoundingClientRect img) / 2)
                              (height (getBoundingClientRect img) / 2))
              = Some (clicked_xy (click_at img (width (getBoundingClientRect img) / 2)
                                               (height (getBoundingClientRect img) / 2))))"
proof -
  let ?r = "getBoundingClientRect img"
  let ?W = "width ?r" and ?H = "height ?r"
  let ?nw = "real (naturalWidth img)" and ?nh = "real (naturalHeight img)"
  let ?evt = "click_at img (?W / 2) (?H / 2)"
  define \<sigma> where "\<sigma> = yScale img"
  define x where "x = fst (clicked_xy ?evt)"
  define y where "y = snd (clicked_xy ?evt)"
  from assms(1) have pos: "0 < ?nw" "0 < ?nh" "0 < ?W" "0 < ?H"
    by (simp_all add: positive_geometry_def)
  have le: "?nw \<le> 2 ^ 32" "?nh \<le> 2 ^ 32"
  proof -
    have "?nw < real (2 ^ 32)" "?nh < real (2 ^ 32)"
      using assms(3,4) by (simp_all only: of_nat_less_iff)
    then show "?nw \<le> 2 ^ 32" "?nh \<le> 2 ^ 32" by simp_all
  qed
  have "?nw / ?W = ?nh / ?H"
    using assms(2) pos by (simp add: field_simps)
  then have tie: "xScale img = yScale img"
    by (simp add: xScale_def yScale_def js_divide_def)
  have \<sigma>w: "\<sigma> = fl (?nw / ?W)" and \<sigma>h: "\<sigma> = fl (?nh / ?H)"
    using tie by (simp_all add: \<sigma>_def xScale_def yScale_def js_divide_def)
  have xy: "clicked_xy ?evt =
      (Math_round (js_times (js_minus (fl (?W / 2)) (x_offset img)) \<sigma>),
       Math_round (js_times (js_minus (fl (?H / 2)) 0) \<sigma>))"
    by (simp add: clicked_xy_def tie click_at_simps height_constrained_click_at \<sigma>_def
        js_minus_zero)
  have "\<bar>x_offset img\<bar> * \<sigma> \<le> 7 * (unit_roundoff * ?nw)"
    unfolding x_offset_unfold \<sigma>_def [symmetric]
    using pos(3) pos(1) \<sigma>w by (rule tie_offset_small)
  with pos(3) pos(1) le(1) \<sigma>w
  have "\<bar>js_times (js_minus (fl (?W / 2)) (x_offset img)) \<sigma> - ?nw / 2\<bar> \<le> 1 / 4"
    by (rule centre_coordinate)
  then have "\<bar>js_times (js_minus (fl (?W / 2)) (x_offset img)) \<sigma>
      - real_of_int (int (naturalWidth img)) / 2\<bar> \<le> 1 / 4"
    by simp
  then have "\<bar>real_of_int x - real_of_int (int (naturalWidth img)) / 2\<bar> \<le> 1 / 2"
    unfolding x_def xy fst_conv by (rule Math_round_half_integer)
  then have X: "\<bar>real_of_int x - ?nw / 2\<bar> \<le> 1 / 2" by simp
  have "\<bar>(0::real)\<bar> * \<sigma> \<le> 7 * (unit_roundoff * ?nh)"
    using pos(2) unit_roundoff_bounds(1) by simp
  with pos(4) pos(2) le(2) \<sigma>h
  have "\<bar>js_times (js_minus (fl (?H / 2)) 0) \<sigma> - ?nh / 2\<bar> \<le> 1 / 4"
    by (rule centre_coordinate)
  then have "\<bar>js_times (js_minus (fl (?H / 2)) 0) \<sigma>
      - real_of_int (int (naturalHeight img)) / 2\<bar> \<le> 1 / 4"
    by simp
  then have "\<bar>real_of_int y - real_of_int (int (naturalHeight img)) / 2\<bar> \<le> 1 / 2"
    unfolding y_def xy snd_conv by (rule Math_round_half_integer)
  then have Y: "\<bar>real_of_int y - ?nh / 2\<bar> \<le> 1 / 2" by simp
  have halves: "z = int n div 2"
    if "\<bar>real_of_int z - real n / 2\<bar> \<le> 1 / 2" and "even n" for z :: int and n :: nat
  proof -
    from \<open>even n\<close> obtain k where n: "n = 2 * k" ..
    with that(1) have "\<bar>real_of_int z - real_of_int (int k)\<bar> \<le> 1 / 2" by simp
    then have "\<bar>real_of_int (z - int k)\<bar> < 1" by simp
    then have "\<bar>z - int k\<bar> < 1" by linarith
    then show ?thesis by (simp add: n)
  qed
  have range: "0 \<le> z \<and> z < int n"
    if "\<bar>real_of_int z - real n / 2\<bar> \<le> 1 / 2" and "2 \<le> n" for z :: int and n :: nat
  proof -
    have n2: "2 \<le> real n" using that(2) by simp
    have b: "real_of_int z \<le> real n / 2 + 1 / 2" "real n / 2 - 1 / 2 \<le> real_of_int z"
      using that(1) by linarith+
    have "real_of_int z < real n" "- 1 < real_of_int z" using b n2 by linarith+
    then have "real_of_int z < real_of_int (int n)" "real_of_int (- 1) < real_of_int z"
      by simp_all
    then have "z < int n" "- 1 < z" by (simp_all only: of_int_less_iff)
    then show ?thesis by simp
  qed
  have "get_coordinates_of_clicked_image ?evt = Some (clicked_xy ?evt)"
    if "2 \<le> naturalWidth img \<and> 2 \<le> naturalHeight img"
    using range [OF X] range [OF Y] that
    by (simp add: bounds_Some click_at_simps x_def y_def)
  with X Y halves [OF X] halves [OF Y] show ?thesis
    unfolding x_def y_def by blast
qed

theorem center_click_witness:
  "positive_geometry (image_in_box 300 200 10 5 150 100) \<and>
   width (getBoundingClientRect (image_in_box 300 200 10 5 150 100)) /
     height (getBoundingClientRect (image_in_box 300 200 10 5 150 100)) = real 300 / real 200 \<and>
   get_coordinates_of_clicked_image (click_at (image_in_box 300 200 10 5 150 100) 75 50)
     = Some (150, 100)"
proof -
  let ?img = "image_in_box 300 200 10 5 150 100"
  have pos: "positive_geometry ?img"
    by (simp add: positive_geometry_def image_in_box_def)
  have ratio: "width (getBoundingClientRect ?img) / height (getBoundingClientRect ?img)
      = real (naturalWidth ?img) / real (naturalHeight ?img)"
    by (simp add: image_in_box_def)
  have small: "naturalWidth ?img < 2 ^ 32" "naturalHeight ?img < 2 ^ 32"
    by (simp_all add: image_in_box_def)
  have sel: "width (getBoundingClientRect ?img) = 150" "height (getBoundingClientRect ?img) = 100"
      "naturalWidth ?img = 300" "naturalHeight ?img = 200"
    by (simp_all add: image_in_box_def)
  from center_click [OF pos ratio small]
  have "fst (clicked_xy (click_at ?img 75 50)) = 150 \<and>
      snd (clicked_xy (click_at ?img 75 50)) = 100 \<and>
      get_coordinates_of_clicked_image (click_at ?img 75 50)
        = Some (clicked_xy (click_at ?img 75 50))"
    by (simp add: sel)
  then have "get_coordinates_of_clicked_image (click_at ?img 75 50) = Some (150, 100)"
    by (simp add: prod_eq_iff)
  with pos ratio show ?thesis by (simp add: sel)
qed

subsection \<open>The rounding of the mapper\<close>

text \<open>
  C10: the rounding sends \<open>k + 1/2\<close> to \<open>k + 1\<close> for every integer \<open>k\<close>, negative
  ones as well, so that \<open>-1/2\<close> becomes 0; and each of the four coordinates that the two
  branches compute is rounded by this rule: when the scaled offset is \<open>k + 1/2\<close>, the
  coordinate is \<open>k + 1\<close>.
\<close>

theorem rounding_rule:
  "Math_round (of_int k + 1 / 2) = k + 1 \<and>
   Math_round (- (1 / 2)) = 0 \<and>
   (js_times (js_minus (clientX evt) (left (getBoundingClientRect (currentTarget evt))))
       (xScale (currentTarget evt)) = of_int k + 1 / 2 \<longrightarrow>
    fst (width_constrained evt) = k + 1) \<and>
   (js_times
       (js_minus (js_minus (clientY evt) (top_edge (getBoundingClientRect (currentTarget evt))))
          (y_offset (currentTarget evt)))
       (xScale (currentTarget evt)) = of_int k + 1 / 2 \<longrightarrow>
    snd (width_constrained evt) = k + 1) \<and>
   (js_times
       (js_minus (js_minus (clientX evt) (left (getBoundingClientRect (currentTarget evt))))
          (x_offset (currentTarget evt)))
       (yScale (currentTarget evt)) = of_int k + 1 / 2 \<longrightarrow>
    fst (height_constrained evt) = k + 1) \<and>
   (js_times (js_minus (clientY evt) (top_edge (getBoundingClientRect (currentTarget evt))))
       (yScale (currentTarget evt)) = of_int k + 1 / 2 \<longrightarrow>
    snd (height_constrained evt) = k + 1)"
proof -
  have "Math_round (- (1 / 2)) = 0"
    by (simp add: Math_round_def)
  then show ?thesis
    by (simp add: width_constrained_unfold height_constrained_unfold Math_round_half)
qed

theorem rounding_rule_witness:
  "Math_round (of_int (- 3) + 1 / 2) = - 2 \<and>
   width_constrained (click_at (image_in_box 100 100 10 5 100 100) (- 5 / 2) (- 5 / 2))
     = (- 2, - 2) \<and>
   height_constrained (click_at (image_in_box 100 100 10 5 100 100) (- 5 / 2) (- 5 / 2))
     = (- 2, - 2)"
proof -
  let ?evt = "click_at (image_in_box 100 100 10 5 100 100) (- 5 / 2) (- 5 / 2)"
  let ?img = "currentTarget ?evt"
  have x1: "js_times (js_minus (clientX ?evt) (left (getBoundingClientRect ?img))) (xScale ?img)
      = of_int (- 3) + 1 / 2"
    and y1: "js_times
        (js_minus (js_minus (clientY ?evt) (top_edge (getBoundingClientRect ?img)))
           (y_offset ?img))
        (xScale ?img) = of_int (- 3) + 1 / 2"
    and x2: "js_times
        (js_minus (js_minus (clientX ?evt) (left (getBoundingClientRect ?img))) (x_offset ?img))
        (yScale ?img) = of_int (- 3) + 1 / 2"
    and y2: "js_times (js_minus (clientY ?evt) (top_edge (getBoundingClientRect ?img)))
        (yScale ?img) = of_int (- 3) + 1 / 2"
    by (simp_all add: click_at_def image_in_box_def xScale_def yScale_def x_offset_unfold
        y_offset_unfold number_defs)
  from rounding_rule [of "- 3" ?evt] x1 y1 x2 y2
  have "Math_round (of_int (- 3) + 1 / 2) = - 3 + 1 \<and>
      fst (width_constrained ?evt) = - 3 + 1 \<and> snd (width_constrained ?evt) = - 3 + 1 \<and>
      fst (height_constrained ?evt) = - 3 + 1 \<and> snd (height_constrained ?evt) = - 3 + 1"
    by blast
  then show ?thesis
    by (simp add: prod_eq_iff)
qed

section \<open>Properties of the outside-click detector\<close>

lemma contains_iff:
  "contains n other \<longleftrightarrow> other = n \<or> (\<exists>c \<in> set (childNodes n). contains c other)"
  by (cases n) simp

lemma handle_click_Some:
  assumes "node h = Some n"
  shows "handle_click h e =
     (if \<not> contains n (target e) \<and> \<not> defaultPrevented e then [(cb h, e)] else [])"
  using assms by (simp add: handle_click_def)

lemma handle_click_None:
  assumes "node h = None"
  shows "handle_click h e = []"
  using assms by (simp add: handle_click_def)

subsection \<open>The invariant of the document\<close>

lemma well_formed_empty: "well_formed empty_document"
  by (simp add: well_formed_def empty_document_def)

lemma click_outside_fresh:
  assumes "well_formed doc"
  shows "click_outside n c doc =
           (\<lparr>closure_id = allocated doc, node = n, cb = c\<rparr>,
            \<lparr>listeners = listeners doc @
               [\<lparr>event_type = ''click'',
                 callback = \<lparr>closure_id = allocated doc, node = n, cb = c\<rparr>,
                 capture = True\<rparr>],
             allocated = Suc (allocated doc)\<rparr>)"
proof -
  have "\<not> (\<exists>l \<in> set (listeners doc).
           same_listener ''click'' \<lparr>closure_id = allocated doc, node = n, cb = c\<rparr> True l)"
    using assms by (auto simp: well_formed_def same_listener_def)
  then show ?thesis
    by (simp add: click_outside_def addEventListener_def Let_def)
qed

lemma well_formed_click_outside:
  assumes "well_formed doc"
  shows "well_formed (snd (click_outside n c doc))"
  using assms unfolding click_outside_fresh [OF assms]
  by (auto simp: well_formed_def less_Suc_eq)

lemma well_formed_destroy:
  assumes "well_formed doc"
  shows "well_formed (destroy h doc)"
  using assms by (simp add: well_formed_def destroy_def removeEventListener_def)

subsection \<open>Active registrations\<close>

text \<open>A registration is active once \<open>click_outside\<close> has returned.\<close>

lemma click_outside_active:
  assumes "well_formed doc" and "click_outside n c doc = (h, doc')"
  shows "active h doc'" and "node h = n" and "cb h = c"
proof -
  let ?h = "\<lparr>closure_id = allocated doc, node = n, cb = c\<rparr>"
  from assms(2) have h: "h = ?h"
    and doc': "doc' = \<lparr>listeners = listeners doc @
        [\<lparr>event_type = ''click'', callback = ?h, capture = True\<rparr>],
        allocated = Suc (allocated doc)\<rparr>"
    unfolding click_outside_fresh [OF assms(1)] by auto
  have "filter (\<lambda>l. closure_id (callback l) = allocated doc) (listeners doc) = []"
    using assms(1) by (auto simp: filter_empty_conv well_formed_def)
  then show "active h doc'"
    by (simp add: active_def h doc')
  show "node h = n" and "cb h = c"
    by (simp_all add: h)
qed

text \<open>It stays active while other detectors are registered and torn down.\<close>

lemma active_click_outside:
  assumes "active h doc"
  shows "active h (snd (click_outside n c doc))"
  using assms
  by (auto simp: active_def click_outside_def addEventListener_def Let_def)

lemma active_destroy_other:
  assumes "active h doc" and "closure_id g \<noteq> closure_id h"
  shows "active h (destroy g doc)"
proof -
  have "filter (\<lambda>l. closure_id (callback l) = closure_id h)
          (filter (\<lambda>l. \<not> same_listener ''click'' g True l) (listeners doc))
        = filter (\<lambda>l. closure_id (callback l) = closure_id h) (listeners doc)"
    using assms(2) by (auto simp: same_listener_def intro: filter_cong)
  with assms(1) show ?thesis
    by (simp add: active_def destroy_def removeEventListener_def)
qed

lemma calls_of_append: "calls_of h (xs @ ys) = calls_of h xs @ calls_of h ys"
  by (simp add: calls_of_def)

lemma calls_of_tagged:
  "map snd (filter (\<lambda>i. fst i = k)
      (concat (map (\<lambda>l. map (Pair (closure_id (callback l))) (f l)) ls)))
   = concat (map f (filter (\<lambda>l. closure_id (callback l) = k) ls))"
  by (induction ls) (simp_all add: comp_def)

lemma calls_of_dispatch:
  "calls_of h (dispatch_click e doc) =
     concat (map (\<lambda>l. handle_click (callback l) e)
       (filter (\<lambda>l. closure_id (callback l) = closure_id h)
         (filter (\<lambda>l. event_type l = ''click'') (listeners doc))))"
  unfolding calls_of_def dispatch_click_def by (rule calls_of_tagged)

lemma calls_of_active:
  assumes "active h doc"
  shows "calls_of h (dispatch_click e doc) = handle_click h e"
proof -
  have "filter (\<lambda>l. closure_id (callback l) = closure_id h)
          (filter (\<lambda>l. event_type l = ''click'') (listeners doc))
        = filter (\<lambda>l. event_type l = ''click'')
            (filter (\<lambda>l. closure_id (callback l) = closure_id h) (listeners doc))"
    by (simp add: conj_commute)
  also have "\<dots> = [\<lparr>event_type = ''click'', callback = h, capture = True\<rparr>]"
    using assms by (simp add: active_def)
  finally show ?thesis
    by (simp add: calls_of_dispatch)
qed

lemma calls_of_dispatch_absent:
  assumes "\<forall>l \<in> set (listeners doc). closure_id (callback l) \<noteq> closure_id h"
  shows "calls_of h (dispatch_click e doc) = []"
proof -
  have "filter (\<lambda>l. closure_id (callback l) = closure_id h)
          (filter (\<lambda>l. event_type l = ''click'') (listeners doc)) = []"
    using assms by (auto simp: filter_empty_conv)
  then show ?thesis
    by (simp add: calls_of_dispatch)
qed

subsection \<open>Registrations that are over\<close>

lemma torn_down_click_outside:
  assumes "torn_down h doc"
  shows "torn_down h (snd (click_outside n c doc))"
  using assms
  by (auto simp: torn_down_def click_outside_def addEventListener_def Let_def)

lemma torn_down_destroy:
  assumes "torn_down h doc"
  shows "torn_down h (destroy g doc)"
  using assms by (simp add: torn_down_def destroy_def removeEventListener_def)

lemma torn_down_run:
  assumes "torn_down h doc"
  shows "calls_of h (run acts doc) = []"
  using assms
proof (induction acts doc rule: run.induct)
  case (1 doc)
  then show ?case by (simp add: calls_of_def)
next
  case (2 n c acts doc)
  then show ?case by (simp add: torn_down_click_outside)
next
  case (3 g acts doc)
  then show ?case by (simp add: torn_down_destroy)
next
  case (4 e acts doc)
  then show ?case
    by (simp add: calls_of_append calls_of_dispatch_absent torn_down_def)
qed

lemma allocated_destroy: "allocated (destroy h doc) = allocated doc"
  by (simp add: destroy_def removeEventListener_def)

lemma destroy_idem: "destroy h (destroy h doc) = destroy h doc"
  by (simp add: destroy_def removeEventListener_def)

lemma destroy_active:
  assumes "active h doc"
  shows "listeners (destroy h doc)
           = filter (\<lambda>l. closure_id (callback l) \<noteq> closure_id h) (listeners doc)"
proof -
  have "same_listener ''click'' h True l \<longleftrightarrow> closure_id (callback l) = closure_id h"
    if "l \<in> set (listeners doc)" for l
  proof
    assume "closure_id (callback l) = closure_id h"
    with that have "l \<in> set (filter (\<lambda>l. closure_id (callback l) = closure_id h) (listeners doc))"
      by simp
    with assms have "l = \<lparr>event_type = ''click'', callback = h, capture = True\<rparr>"
      by (simp add: active_def)
    then show "same_listener ''click'' h True l"
      by (simp add: same_listener_def)
  qed (simp add: same_listener_def)
  then show ?thesis
    by (auto simp: destroy_def removeEventListener_def intro: filter_cong)
qed

subsection \<open>Clicks outside the node\<close>

text \<open>
  C3: for a click that an active registration with a non-null node observes, the handler
  calls the callback with the event, once, exactly when the target of the event is not the
  node, is not contained in a child of the node, and the default action of the event has
  not been prevented; in every other case it makes no call.
\<close>

theorem outside_click:
  assumes "active h doc" and "node h = Some n"
  shows "(calls_of h (dispatch_click e doc) = [(cb h, e)] \<longleftrightarrow>
            target e \<noteq> n \<and> \<not> (\<exists>d \<in> set (childNodes n). contains d (target e)) \<and>
            \<not> defaultPrevented e) \<and>
         (calls_of h (dispatch_click e doc) = [] \<longleftrightarrow>
            \<not> (target e \<noteq> n \<and> \<not> (\<exists>d \<in> set (childNodes n). contains d (target e)) \<and>
               \<not> defaultPrevented e))"
proof -
  have "calls_of h (dispatch_click e doc) =
      (if \<not> contains n (target e) \<and> \<not> defaultPrevented e then [(cb h, e)] else [])"
    by (simp only: calls_of_active [OF assms(1)] handle_click_Some [OF assms(2)])
  then show ?thesis
    using contains_iff [of n "target e"] by auto
qed

theorem outside_click_witness:
  "active (fst (click_outside (Some (Node 11 [Node 12 []])) 7 empty_document))
          (snd (click_outside (Some (Node 11 [Node 12 []])) 7 empty_document)) \<and>
   calls_of (fst (click_outside (Some (Node 11 [Node 12 []])) 7 empty_document))
     (dispatch_click \<lparr>target = Node 13 [], defaultPrevented = False\<rparr>
       (snd (click_outside (Some (Node 11 [Node 12 []])) 7 empty_document)))
     = [(7, \<lparr>target = Node 13 [], defaultPrevented = False\<rparr>)] \<and>
   calls_of (fst (click_outside (Some (Node 11 [Node 12 []])) 7 empty_document))
     (dispatch_click \<lparr>target = Node 12 [], defaultPrevented = False\<rparr>
       (snd (click_outside (Some (Node 11 [Node 12 []])) 7 empty_document)))
     = [] \<and>
   calls_of (fst (click_outside (Some (Node 11 [Node 12 []])) 7 empty_document))
     (dispatch_click \<lparr>target = Node 11 [Node 12 []], defaultPrevented = False\<rparr>
       (snd (click_outside (Some (Node 11 [Node 12 []])) 7 empty_document)))
     = [] \<and>
   calls_of (fst (click_outside (Some (Node 11 [Node 12 []])) 7 empty_document))
     (dispatch_click \<lparr>target = Node 13 [], defaultPrevented = True\<rparr>
       (snd (click_outside (Some (Node 11 [Node 12 []])) 7 empty_document)))
     = []"
proof -
  let ?n = "Node 11 [Node 12 []]"
  let ?h = "fst (click_outside (Some ?n) 7 empty_document)"
  let ?doc = "snd (click_outside (Some ?n) 7 empty_document)"
  have act: "active ?h ?doc"
    by (simp add: active_def click_outside_def addEventListener_def empty_document_def Let_def)
  have nd: "node ?h = Some ?n" and c: "cb ?h = 7"
    by (simp_all add: click_outside_def Let_def)
  show ?thesis
    using outside_click [OF act nd, of "\<lparr>target = Node 13 [], defaultPrevented = False\<rparr>"]
      outside_click [OF act nd, of "\<lparr>target = Node 12 [], defaultPrevented = False\<rparr>"]
      outside_click [OF act nd, of "\<lparr>target = ?n, defaultPrevented = False\<rparr>"]
      outside_click [OF act nd, of "\<lparr>target = Node 13 [], defaultPrevented = True\<rparr>"]
      act
    by (simp add: c)
qed

subsection \<open>A null node\<close>

text \<open>
  C4, as the specification states it, fails for a null node: a detector registered with
  \<open>null\<close> makes no call on a click whose default action has not been prevented.
\<close>

theorem null_node_silent:
  "\<not> defaultPrevented \<lparr>target = Node 13 [], defaultPrevented = False\<rparr> \<and>
   dispatch_click \<lparr>target = Node 13 [], defaultPrevented = False\<rparr>
     (snd (click_outside None 7 empty_document)) = []"
  by (simp add: dispatch_click_def handle_click_def click_outside_def addEventListener_def
      empty_document_def Let_def)

text \<open>
  C4, amended: an active registration whose node is \<open>null\<close> never calls the callback;
  an active registration whose node is not \<open>null\<close> and does not contain the target of
  the click, as a node detached from the document does not, calls the callback on every
  click whose default action has not been prevented.
\<close>

theorem null_or_detached_node:
  assumes "active h doc"
  shows "(node h = None \<longrightarrow> calls_of h (dispatch_click e doc) = []) \<and>
         (node h = Some n \<and> \<not> contains n (target e) \<and> \<not> defaultPrevented e \<longrightarrow>
            calls_of h (dispatch_click e doc) = [(cb h, e)])"
  by (simp add: calls_of_active [OF assms] handle_click_None handle_click_Some)

theorem null_or_detached_node_witness:
  "active (fst (click_outside None 7 empty_document))
          (snd (click_outside None 7 empty_document)) \<and>
   calls_of (fst (click_outside None 7 empty_document))
     (dispatch_click \<lparr>target = Node 13 [], defaultPrevented = False\<rparr>
       (snd (click_outside None 7 empty_document))) = [] \<and>
   active (fst (click_outside (Some (Node 19 [])) 7 empty_document))
          (snd (click_outside (Some (Node 19 [])) 7 empty_document)) \<and>
   \<not> contains (Node 19 []) (Node 13 []) \<and>
   calls_of (fst (click_outside (Some (Node 19 [])) 7 empty_document))
     (dispatch_click \<lparr>target = Node 13 [], defaultPrevented = False\<rparr>
       (snd (click_outside (Some (Node 19 [])) 7 empty_document)))
     = [(7, \<lparr>target = Node 13 [], defaultPrevented = False\<rparr>)]"
proof -
  let ?e = "\<lparr>target = Node 13 [], defaultPrevented = False\<rparr>"
  let ?h0 = "fst (click_outside None 7 empty_document)"
  let ?doc0 = "snd (click_outside None 7 empty_document)"
  let ?h1 = "fst (click_outside (Some (Node 19 [])) 7 empty_document)"
  let ?doc1 = "snd (click_outside (Some (Node 19 [])) 7 empty_document)"
  have act: "active ?h0 ?doc0" "active ?h1 ?doc1"
    by (simp_all add: active_def click_outside_def addEventListener_def empty_document_def Let_def)
  have nd: "node ?h0 = None" "node ?h1 = Some (Node 19 [])" "cb ?h1 = 7"
    by (simp_all add: click_outside_def Let_def)
  have out: "\<not> contains (Node 19 []) (target ?e)" "\<not> defaultPrevented ?e"
    by simp_all
  show ?thesis
    using null_or_detached_node [OF act(1), where e = ?e] nd(1)
      null_or_detached_node [OF act(2), where n = "Node 19 []" and e = ?e] nd(2) nd(3) out act
    by simp
qed

subsection \<open>Teardown\<close>

text \<open>
  C8: the teardown of an active registration removes its listener from the document and
  no other; a second teardown changes nothing; and after the teardown, whatever
  registrations, teardowns and clicks follow, with whatever targets, the handler of the
  registration makes no call.
\<close>

theorem teardown:
  assumes "active h doc"
  shows "listeners (destroy h doc)
           = filter (\<lambda>l. closure_id (callback l) \<noteq> closure_id h) (listeners doc) \<and>
         torn_down h (destroy h doc) \<and>
         destroy h (destroy h doc) = destroy h doc \<and>
         calls_of h (run acts (destroy h doc)) = []"
proof -
  note removed = destroy_active [OF assms]
  have over: "torn_down h (destroy h doc)"
    using assms
    by (simp add: torn_down_def removed active_def allocated_destroy)
  from removed over destroy_idem torn_down_run [OF over] show ?thesis
    by simp
qed

theorem teardown_witness:
  "active (fst (click_outside (Some (Node 11 [])) 7 empty_document))
          (snd (click_outside (Some (Node 11 [])) 7 empty_document)) \<and>
   calls_of (fst (click_outside (Some (Node 11 [])) 7 empty_document))
     (run [Click \<lparr>target = Node 13 [], defaultPrevented = False\<rparr>]
       (snd (click_outside (Some (Node 11 [])) 7 empty_document)))
     = [(7, \<lparr>target = Node 13 [], defaultPrevented = False\<rparr>)] \<and>
   listeners (destroy (fst (click_outside (Some (Node 11 [])) 7 empty_document))
       (snd (click_outside (Some (Node 11 [])) 7 empty_document))) = [] \<and>
   calls_of (fst (click_outside (Some (Node 11 [])) 7 empty_document))
     (run [Click \<lparr>target = Node 13 [], defaultPrevented = False\<rparr>,
           Teardown (fst (click_outside (Some (Node 11 [])) 7 empty_document)),
           Register None 4,
           Click \<lparr>target = Node 11 [], defaultPrevented = False\<rparr>]
       (destroy (fst (click_outside (Some (Node 11 [])) 7 empty_document))
         (snd (click_outside (Some (Node 11 [])) 7 empty_document))))
     = []"
proof -
  let ?e = "\<lparr>target = Node 13 [], defaultPrevented = False\<rparr>"
  let ?h = "fst (click_outside (Some (Node 11 [])) 7 empty_document)"
  let ?doc = "snd (click_outside (Some (Node 11 [])) 7 empty_document)"
  have act: "active ?h ?doc"
    by (simp add: active_def click_outside_def addEventListener_def empty_document_def Let_def)
  have before: "calls_of ?h (run [Click ?e] ?doc) = [(7, ?e)]"
    by (simp add: calls_of_def dispatch_click_def handle_click_def click_outside_def
        addEventListener_def empty_document_def Let_def)
  have ls: "listeners ?doc
      = [\<lparr>event_type = ''click'', callback = ?h, capture = True\<rparr>]"
    by (simp add: click_outside_def addEventListener_def empty_document_def Let_def)
  note t = teardown [OF act, of "[Click ?e, Teardown ?h, Register None 4,
        Click \<lparr>target = Node 11 [], defaultPrevented = False\<rparr>]"]
  have gone: "listeners (destroy ?h ?doc) = []"
    using t [THEN conjunct1] by (simp add: ls)
  note silent = t [THEN conjunct2, THEN conjunct2, THEN conjunct2]
  show ?thesis
    by (intro conjI) (rule act before gone silent)+
qed

end
